theory Spec2Isabelle
  imports
    Complex_Main
    "HOL-Library.Word"
    "HOL-Library.Multiset"
    "HOL-Library.AList"
    "HOL-Library.Char_ord"
    "HOL-Library.List_Lexorder"
    "HOL-Library.Product_Lexorder"
begin

section \<open>Data model of report.go\<close>

text \<open>
  Go's \<open>int\<close> is a 64-bit two's complement integer on the platforms the tool is built
  for: \<open>+\<close> and \<open>-\<close> wrap around, comparisons are signed (\<open><s\<close>, read through
  \<open>sint\<close>).
\<close>

type_synonym go_int = "64 word"

text \<open>
  A \<open>float64\<close> is modelled by the exact rational it stands for, together with the three
  values a division by zero produces. Rounding to 53 bits is not modelled; no statement
  below depends on the digits of a coverage percentage.
\<close>

datatype float64 = NaN | NegInf | Finite rat | PosInf

text \<open>The \<open><\<close> of Go on \<open>float64\<close>: every comparison with NaN is false.\<close>

fun float64_less :: "float64 \<Rightarrow> float64 \<Rightarrow> bool" where
  "float64_less NaN _ = False"
| "float64_less _ NaN = False"
| "float64_less NegInf NegInf = False"
| "float64_less NegInf _ = True"
| "float64_less (Finite a) (Finite b) = (a < b)"
| "float64_less (Finite a) PosInf = True"
| "float64_less (Finite a) NegInf = False"
| "float64_less PosInf _ = False"

text \<open>
  The expression \<open>float64(c) / float64(t) * 100\<close> of \<open>results\<close>: both operands are
  finite, so the only special cases are those of a zero divisor.
\<close>

definition percent :: "go_int \<Rightarrow> go_int \<Rightarrow> float64" where
  "percent c t =
     (if sint t = 0
      then (if sint c = 0 then NaN else if 0 < sint c then PosInf else NegInf)
      else Finite (rat_of_int (sint c) / rat_of_int (sint t) * 100))"

text \<open>\<open>cover.ProfileBlock\<close> and \<open>cover.Profile\<close> of golang.org/x/tools/cover.\<close>

record ProfileBlock =
  StartLine :: go_int
  StartCol :: go_int
  EndLine :: go_int
  EndCol :: go_int
  NumStmt :: go_int
  Count :: go_int

record Profile =
  FileName :: string
  Mode :: string
  Blocks :: "ProfileBlock list"

record Summary =
  Name :: string
  Blocks :: go_int
  Stmts :: go_int
  MissingBlocks :: go_int
  MissingStmts :: go_int
  BlockCoverage :: float64
  StmtCoverage :: float64

record Report =
  Total :: Summary
  Files :: "Summary list"

record accumulator =
  name :: string
  blocks :: go_int
  stmts :: go_int
  coveredBlocks :: go_int
  coveredStmts :: go_int

text \<open>A Go \<open>error\<close> is represented by its message.\<close>

type_synonym error = string

text \<open>The zero values \<open>Summary{}\<close> and \<open>Report{}\<close>.\<close>

definition Summary_zero :: Summary where
  "Summary_zero =
     \<lparr>Name = [], Summary.Blocks = 0, Stmts = 0, MissingBlocks = 0, MissingStmts = 0,
      BlockCoverage = Finite 0, StmtCoverage = Finite 0\<rparr>"

definition Report_zero :: Report where
  "Report_zero = \<lparr>Total = Summary_zero, Files = []\<rparr>"

section \<open>The accumulator\<close>

definition add :: "ProfileBlock \<Rightarrow> accumulator \<Rightarrow> accumulator" where
  "add block a =
     (let a1 = a\<lparr>blocks := blocks a + 1\<rparr>;
          a2 = a1\<lparr>stmts := stmts a1 + NumStmt block\<rparr>
      in if 0 <s Count block
         then (let a3 = a2\<lparr>coveredBlocks := coveredBlocks a2 + 1\<rparr>
               in a3\<lparr>coveredStmts := coveredStmts a3 + NumStmt block\<rparr>)
         else a2)"

definition results :: "accumulator \<Rightarrow> Summary" where
  "results a =
     \<lparr>Name = name a,
      Summary.Blocks = blocks a,
      Stmts = stmts a,
      MissingBlocks = blocks a - coveredBlocks a,
      MissingStmts = stmts a - coveredStmts a,
      BlockCoverage = percent (coveredBlocks a) (blocks a),
      StmtCoverage = percent (coveredStmts a) (stmts a)\<rparr>"

text \<open>\<open>&accumulator{name: n}\<close>: every counter starts at zero.\<close>

definition new_accumulator :: "string \<Rightarrow> accumulator" where
  "new_accumulator n =
     \<lparr>name = n, blocks = 0, stmts = 0, coveredBlocks = 0, coveredStmts = 0\<rparr>"

section \<open>Library functions the report relies on\<close>

subsection \<open>Package strings\<close>

text \<open>\<open>strings.HasPrefix(s, prefix)\<close>: \<open>len(s) >= len(prefix) && s[:len(prefix)] == prefix\<close>.\<close>

definition HasPrefix :: "string \<Rightarrow> string \<Rightarrow> bool" where
  "HasPrefix s pre \<longleftrightarrow> length pre \<le> length s \<and> take (length pre) s = pre"

text \<open>\<open>strings.Index(s, substr)\<close>: the position of the first occurrence, \<open>None\<close> for -1.\<close>

fun Index :: "string \<Rightarrow> string \<Rightarrow> nat option" where
  "Index [] substr = (if substr = [] then Some 0 else None)"
| "Index (c # s) substr =
     (if HasPrefix (c # s) substr then Some 0 else map_option Suc (Index s substr))"

text \<open>
  \<open>strings.Replace(s, old, "", -1)\<close>: Replace returns \<open>s\<close> when \<open>old == new\<close>;
  otherwise it looks for the next occurrence of \<open>old\<close> from \<open>start\<close>, copies what
  precedes it, and goes on behind it, until no occurrence is left.
\<close>

function Replace_del :: "string \<Rightarrow> string \<Rightarrow> string" where
  "Replace_del s old =
     (if old = [] then s
      else case Index s old of
             None \<Rightarrow> s
           | Some j \<Rightarrow> take j s @ Replace_del (drop (j + length old) s) old)"
  by pat_completeness auto
termination
proof (relation "measure (\<lambda>(s, old). length s)")
  show "wf (measure (\<lambda>(s, old). length s))" by simp
next
  fix s old :: string and j
  assume nonempty: "old \<noteq> []" and found: "Index s old = Some j"
  have "k + length old \<le> length t" if "Index t old = Some k" for t k
    using that
  proof (induction t arbitrary: k)
    case Nil
    then show ?case by (simp split: if_splits)
  next
    case (Cons c t)
    show ?case
    proof (cases "HasPrefix (c # t) old")
      case True
      with Cons.prems show ?thesis by (simp add: HasPrefix_def)
    next
      case False
      with Cons.prems obtain k' where "Index t old = Some k'" "k = Suc k'" by auto
      with Cons.IH show ?thesis by fastforce
    qed
  qed
  from this [OF found] nonempty have "length (drop (j + length old) s) < length s"
    by (cases s) auto
  then show "((drop (j + length old) s, old), (s, old)) \<in> measure (\<lambda>(s, old). length s)"
    by simp
qed

declare Replace_del.simps [simp del]

subsection \<open>Iterating over a map\<close>

text \<open>
  The accumulators of the files live in a \<open>map[string]*accumulator\<close>, kept here as an
  association list with distinct keys. \<open>range\<close> visits the entries of a Go map in an
  order the runtime picks anew at every loop; the choices it makes are the list
  \<open>seed\<close>: each number selects the entry visited next among those not yet visited.
\<close>

fun range_order :: "nat list \<Rightarrow> 'a list \<Rightarrow> 'a list" where
  "range_order seed [] = []"
| "range_order [] (x # xs) = x # xs"
| "range_order (n # seed) (x # xs) =
     (let i = n mod length (x # xs)
      in (x # xs) ! i # range_order seed (take i (x # xs) @ drop (Suc i) (x # xs)))"

subsection \<open>Package sort\<close>

text \<open>
  \<open>sort.Slice(x, less)\<close> sorts in place, calling \<open>less(i, j)\<close> on indices of the
  slice as it stands at that moment, and swapping elements. On a slice of at most 12
  elements (since Go 1.19; at most 6 elements before) it runs the insertion sort below:
  \<open>for i := a + 1; i < b; i++ { for j := i; j > a && less(j, j-1); j-- { swap(j, j-1) } }\<close>.
  Longer slices are sorted by another algorithm, which is not modelled; the package
  does not promise a stable sort.
\<close>

definition swap :: "'a list \<Rightarrow> nat \<Rightarrow> nat \<Rightarrow> 'a list" where
  "swap xs i j = xs[i := xs ! j, j := xs ! i]"

fun insertion_inner :: "('a list \<Rightarrow> nat \<Rightarrow> nat \<Rightarrow> bool) \<Rightarrow> nat \<Rightarrow> 'a list \<Rightarrow> 'a list" where
  "insertion_inner lessFn 0 xs = xs"
| "insertion_inner lessFn (Suc j) xs =
     (if lessFn xs (Suc j) j then insertion_inner lessFn j (swap xs (Suc j) j) else xs)"

definition insertionSort :: "('a list \<Rightarrow> nat \<Rightarrow> nat \<Rightarrow> bool) \<Rightarrow> 'a list \<Rightarrow> 'a list" where
  "insertionSort lessFn xs = fold (insertion_inner lessFn) [1..<length xs] xs"

definition sort_Slice :: "('a list \<Rightarrow> nat \<Rightarrow> nat \<Rightarrow> bool) \<Rightarrow> 'a list \<Rightarrow> 'a list" where
  "sort_Slice lessFn xs = insertionSort lessFn xs"

section \<open>Sorting the file summaries\<close>

text \<open>
  The two \<open>switch\<close> statements of \<open>sortResults\<close>. The closures read \<open>reports\<close>, the
  slice being sorted, at the indices they are given.
\<close>

definition order_reverse :: "string \<Rightarrow> bool option" where
  "order_reverse order =
     (if order = ''asc'' then Some False
      else if order = ''desc'' then Some True
      else None)"

definition mode_less :: "string \<Rightarrow> (Summary list \<Rightarrow> nat \<Rightarrow> nat \<Rightarrow> bool) option" where
  "mode_less mode =
     (if mode = ''filename'' then
        Some (\<lambda>reports i j. Name (reports ! i) < Name (reports ! j))
      else if mode = ''block'' then
        Some (\<lambda>reports i j.
          float64_less (BlockCoverage (reports ! i)) (BlockCoverage (reports ! j)))
      else if mode = ''stmt'' then
        Some (\<lambda>reports i j.
          float64_less (StmtCoverage (reports ! j)) (StmtCoverage (reports ! j)))
      else if mode = ''missing-blocks'' then
        Some (\<lambda>reports i j. MissingBlocks (reports ! i) <s MissingBlocks (reports ! j))
      else if mode = ''missing-stmts'' then
        Some (\<lambda>reports i j. MissingStmts (reports ! i) <s MissingStmts (reports ! j))
      else None)"

text \<open>
  \<open>sortResults\<close> sorts the slice it is given in place and returns an error or nil: the
  model returns the slice as it is afterwards, with the error.
\<close>

definition sortResults :: "Summary list \<Rightarrow> string \<Rightarrow> string \<Rightarrow> Summary list \<times> error option" where
  "sortResults reports mode order =
     (case order_reverse order of
        None \<Rightarrow> (reports, Some ''Order must be either asc or desc'')
      | Some reverse \<Rightarrow>
          (case mode_less mode of
             None \<Rightarrow>
               (reports,
                Some ''Invalid sort colum, must be one of filename, block, stmt, missing-blocks or missing-stmts'')
           | Some lessFn \<Rightarrow>
               (sort_Slice (\<lambda>xs i j. if reverse then \<not> lessFn xs i j else lessFn xs i j) reports,
                None)))"

section \<open>Generating the report\<close>

text \<open>
  The variables \<open>root\<close>, \<open>total\<close> and \<open>less\<close> of the source are written
  \<open>rootDir\<close>, \<open>total_acc\<close> and \<open>lessFn\<close>: their names are those of constants
  of HOL. \<open>makeReport\<close> ranges over the map of the files in the order given by
  \<open>seed\<close>.
\<close>

definition makeReport ::
  "nat list \<Rightarrow> accumulator \<Rightarrow> (string \<times> accumulator) list \<Rightarrow> string \<Rightarrow> string
     \<Rightarrow> Report \<times> error option" where
  "makeReport seed total_acc files sortBy order =
     (let fileReports = map (\<lambda>(k, fileCover). results fileCover) (range_order seed files)
      in case sortResults fileReports sortBy order of
           (fileReports', Some err) \<Rightarrow> (Report_zero, Some err)
         | (fileReports', None) \<Rightarrow>
             (\<lparr>Total = results total_acc, Files = fileReports'\<rparr>, None))"

text \<open>The name a profile is reported under, and the loop over the exclusions.\<close>

definition display_name :: "string \<Rightarrow> Profile \<Rightarrow> string" where
  "display_name rootDir profile =
     (if rootDir = [] then FileName profile
      else Replace_del (FileName profile) (rootDir @ ''/''))"

definition skip_file :: "string list \<Rightarrow> string \<Rightarrow> bool" where
  "skip_file exclusions fileName =
     fold (\<lambda>exclusion skip. if HasPrefix fileName exclusion then True else skip)
       exclusions False"

text \<open>
  The body of the loop over the profiles. \<open>fileCover\<close> points to the accumulator stored
  in the map, so what \<open>add\<close> does to it is written back under its key.
\<close>

definition add_profile ::
  "string \<Rightarrow> string list \<Rightarrow> Profile \<Rightarrow> accumulator \<times> (string \<times> accumulator) list
     \<Rightarrow> accumulator \<times> (string \<times> accumulator) list" where
  "add_profile rootDir exclusions profile st =
     (case st of (total_acc, files) \<Rightarrow>
        (let fileName = display_name rootDir profile
         in if skip_file exclusions fileName then (total_acc, files)
            else
              (let fileCover =
                     (case map_of files fileName of
                        Some a \<Rightarrow> a
                      | None \<Rightarrow> new_accumulator fileName);
                   (total_acc', fileCover') =
                     fold (\<lambda>block (t, f). (add block t, add block f))
                       (Profile.Blocks profile) (total_acc, fileCover)
               in (total_acc', AList.update fileName fileCover' files))))"

text \<open>
  \<open>parsed\<close> is what \<open>cover.ParseProfiles(coverprofile)\<close> returned: the profiles and
  the error, \<open>None\<close> for nil.
\<close>

definition GenerateReport ::
  "nat list \<Rightarrow> Profile list \<times> error option \<Rightarrow> string \<Rightarrow> string list \<Rightarrow> string \<Rightarrow> string
     \<Rightarrow> Report \<times> error option" where
  "GenerateReport seed parsed rootDir exclusions sortBy order =
     (case parsed of
        (profiles, Some err) \<Rightarrow>
          (Report_zero, Some (''Invalid coverprofile: '' @ [CHR 0x27] @ err @ [CHR 0x27]))
      | (profiles, None) \<Rightarrow>
          (case fold (add_profile rootDir exclusions) profiles (new_accumulator ''Total'', []) of
             (total_acc, files) \<Rightarrow> makeReport seed total_acc files sortBy order))"

section \<open>Auxiliary notions for the proofs\<close>

text \<open>
  The inner loop of the insertion sort moves the element at index \<open>j\<close> to the left as
  long as \<open>less\<close> holds between it and its left neighbour. When \<open>less\<close> only looks at
  the two elements, this is \<open>bubble\<close> on the part of the slice to the left of \<open>j\<close>,
  read from right to left, and the whole sort is \<open>sort_by\<close>.
\<close>

fun bubble :: "('a \<Rightarrow> 'a \<Rightarrow> bool) \<Rightarrow> 'a \<Rightarrow> 'a list \<Rightarrow> 'a list" where
  "bubble lt x [] = [x]"
| "bubble lt x (y # rs) = (if lt x y then y # bubble lt x rs else x # y # rs)"

definition sort_by :: "('a \<Rightarrow> 'a \<Rightarrow> bool) \<Rightarrow> 'a list \<Rightarrow> 'a list" where
  "sort_by lt xs = rev (fold (bubble lt) xs [])"

text \<open>The comparison each closure of \<open>sortResults\<close> makes, on the two elements it reads.\<close>

definition mode_lt :: "string \<Rightarrow> (Summary \<Rightarrow> Summary \<Rightarrow> bool) option" where
  "mode_lt mode =
     (if mode = ''filename'' then Some (\<lambda>a b. Name a < Name b)
      else if mode = ''block'' then
        Some (\<lambda>a b. float64_less (BlockCoverage a) (BlockCoverage b))
      else if mode = ''stmt'' then
        Some (\<lambda>a b. float64_less (StmtCoverage b) (StmtCoverage b))
      else if mode = ''missing-blocks'' then Some (\<lambda>a b. MissingBlocks a <s MissingBlocks b)
      else if mode = ''missing-stmts'' then Some (\<lambda>a b. MissingStmts a <s MissingStmts b)
      else None)"

text \<open>
  The place of a \<open>float64\<close> in the order of \<open><\<close>: on the values other than NaN,
  \<open>float64_less\<close> is the order of these pairs. NaN, which \<open><\<close> relates to nothing,
  is given a place of its own.
\<close>

fun float64_rank :: "float64 \<Rightarrow> nat \<times> rat" where
  "float64_rank NegInf = (0, 0)"
| "float64_rank (Finite r) = (1, r)"
| "float64_rank PosInf = (2, 0)"
| "float64_rank NaN = (3, 0)"

text \<open>Two summaries have the same value in the field that \<open>mode\<close> sorts by.\<close>

definition same_key :: "string \<Rightarrow> Summary \<Rightarrow> Summary \<Rightarrow> bool" where
  "same_key mode a b \<longleftrightarrow>
     (if mode = ''filename'' then Name b = Name a
      else if mode = ''block'' then BlockCoverage b = BlockCoverage a
      else if mode = ''stmt'' then StmtCoverage b = StmtCoverage a
      else if mode = ''missing-blocks'' then MissingBlocks b = MissingBlocks a
      else if mode = ''missing-stmts'' then MissingStmts b = MissingStmts a
      else True)"

text \<open>
  A summary with the given name, the given number of blocks and of statements, of
  missing blocks and of missing statements, and the given percentage for both
  coverages.
\<close>

definition summary_of :: "string \<Rightarrow> go_int \<Rightarrow> go_int \<Rightarrow> rat \<Rightarrow> Summary" where
  "summary_of n units missing coverage =
     \<lparr>Name = n, Summary.Blocks = units, Stmts = units,
      MissingBlocks = missing, MissingStmts = missing,
      BlockCoverage = Finite coverage, StmtCoverage = Finite coverage\<rparr>"

definition block_of :: "go_int \<Rightarrow> go_int \<Rightarrow> ProfileBlock" where
  "block_of n c =
     \<lparr>StartLine = 0, StartCol = 0, EndLine = 0, EndCol = 0, NumStmt = n, Count = c\<rparr>"

definition profile_of :: "string \<Rightarrow> ProfileBlock list \<Rightarrow> Profile" where
  "profile_of f bs = \<lparr>FileName = f, Mode = ''set'', Profile.Blocks = bs\<rparr>"

text \<open>
  Two files: \<open>a.go\<close> with blocks of 3 and 2 statements, the first one executed, and
  \<open>b.go\<close> with one executed block of 5 statements.
\<close>

definition two_files :: "Profile list" where
  "two_files =
     [profile_of ''a.go'' [block_of 3 1, block_of 2 0], profile_of ''b.go'' [block_of 5 5]]"

text \<open>The report of the two files, sorted by file name.\<close>

definition two_files_report :: Report where
  "two_files_report =
     \<lparr>Total = \<lparr>Name = ''Total'', Summary.Blocks = 3, Stmts = 10, MissingBlocks = 1,
                MissingStmts = 2, BlockCoverage = Finite (200 / 3), StmtCoverage = Finite 80\<rparr>,
       Files = [\<lparr>Name = ''a.go'', Summary.Blocks = 2, Stmts = 5, MissingBlocks = 1,
                  MissingStmts = 2, BlockCoverage = Finite 50, StmtCoverage = Finite 60\<rparr>,
                \<lparr>Name = ''b.go'', Summary.Blocks = 1, Stmts = 5, MissingBlocks = 0,
                  MissingStmts = 0, BlockCoverage = Finite 100, StmtCoverage = Finite 100\<rparr>]\<rparr>"

text \<open>Two files whose blocks are all executed: both have a block coverage of 100.\<close>

definition tied_files :: "Profile list" where
  "tied_files = [profile_of ''a.go'' [block_of 1 1], profile_of ''b.go'' [block_of 2 1]]"

text \<open>The two files with equal block coverage and a third one, half covered.\<close>

definition three_files :: "Profile list" where
  "three_files = tied_files @ [profile_of ''c.go'' [block_of 1 1, block_of 1 0]]"

text \<open>
  Three files, one of them without blocks: the parser returns no such profile, the
  type has it. Its block coverage is NaN.
\<close>

definition no_block_files :: "Profile list" where
  "no_block_files =
     [profile_of ''a.go'' [block_of 1 1], profile_of ''n.go'' [],
      profile_of ''c.go'' [block_of 1 1, block_of 1 0]]"

text \<open>
  The invariant of the map of the files: the keys are distinct, every accumulator is
  stored under its own name, and no key is excluded.
\<close>

definition files_ok :: "string list \<Rightarrow> (string \<times> accumulator) list \<Rightarrow> bool" where
  "files_ok exclusions files \<longleftrightarrow>
     distinct (map fst files) \<and>
     list_all (\<lambda>(k, a). name a = k \<and> \<not> skip_file exclusions k) files"

section \<open>The insertion sort\<close>

lemma length_bubble: "length (bubble lt x rs) = Suc (length rs)"
  by (induction rs) auto

lemma insertion_inner_bubble:
  "j < length xs \<Longrightarrow>
   insertion_inner (\<lambda>ys i k. lt (ys ! i) (ys ! k)) j xs =
     rev (bubble lt (xs ! j) (rev (take j xs))) @ drop (Suc j) xs"
proof (induction j arbitrary: xs)
  case 0
  then show ?case by (cases xs) auto
next
  case (Suc j)
  let ?x = "xs ! Suc j" and ?y = "xs ! j"
  from Suc.prems have tk: "rev (take (Suc j) xs) = ?y # rev (take j xs)"
    by (simp add: take_Suc_conv_app_nth)
  show ?case
  proof (cases "lt ?x ?y")
    case False
    with Suc.prems tk show ?thesis
      by (simp add: Cons_nth_drop_Suc)
  next
    case True
    let ?xs' = "swap xs (Suc j) j"
    from Suc.prems have len: "j < length ?xs'" by (simp add: swap_def)
    from Suc.prems have a: "?xs' ! j = ?x" and b: "take j ?xs' = take j xs"
      and c: "drop (Suc j) ?xs' = ?y # drop (Suc (Suc j)) xs"
      by (simp_all add: swap_def drop_update_swap flip: Cons_nth_drop_Suc upd_conv_take_nth_drop)
    from True have "insertion_inner (\<lambda>ys i k. lt (ys ! i) (ys ! k)) (Suc j) xs =
        insertion_inner (\<lambda>ys i k. lt (ys ! i) (ys ! k)) j ?xs'" by simp
    also have "\<dots> = rev (bubble lt ?x (rev (take j xs))) @ ?y # drop (Suc (Suc j)) xs"
      using Suc.IH [OF len] a b c by simp
    finally show ?thesis using True tk by simp
  qed
qed

lemma fold_insertion_inner:
  "0 < i \<Longrightarrow> i \<le> length xs \<Longrightarrow>
   fold (insertion_inner (\<lambda>ys a b. lt (ys ! a) (ys ! b))) [1..<i] xs =
     rev (fold (bubble lt) (take i xs) []) @ drop i xs"
proof (induction i)
  case 0
  then show ?case by simp
next
  case (Suc i)
  show ?case
  proof (cases "i = 0")
    case True
    with Suc.prems show ?thesis by (cases xs) auto
  next
    case False
    let ?ys = "rev (fold (bubble lt) (take i xs) []) @ drop i xs"
    have leny: "length (fold (bubble lt) zs acc) = length zs + length acc" for zs acc
      by (induction zs arbitrary: acc) (auto simp: length_bubble)
    from Suc.prems have i: "i < length xs" by simp
    then have lp: "length (rev (fold (bubble lt) (take i xs) [])) = i"
      by (simp add: leny)
    from False Suc.prems Suc.IH
    have "fold (insertion_inner (\<lambda>ys a b. lt (ys ! a) (ys ! b))) [1..<Suc i] xs
            = insertion_inner (\<lambda>ys a b. lt (ys ! a) (ys ! b)) i ?ys"
      by simp
    also have "\<dots> = rev (bubble lt (?ys ! i) (rev (take i ?ys))) @ drop (Suc i) ?ys"
      using i by (intro insertion_inner_bubble) (simp add: leny)
    also have "?ys ! i = xs ! i"
      using i lp by (simp add: nth_append)
    also have "take i ?ys = rev (fold (bubble lt) (take i xs) [])"
      using lp by simp
    also have "drop (Suc i) ?ys = drop (Suc i) xs"
      using lp i by simp
    finally show ?thesis
      using i by (simp add: take_Suc_conv_app_nth)
  qed
qed

lemma sort_Slice_sort_by:
  "sort_Slice (\<lambda>ys a b. lt (ys ! a) (ys ! b)) xs = sort_by lt xs"
proof (cases xs)
  case Nil
  then show ?thesis by (simp add: sort_Slice_def insertionSort_def sort_by_def)
next
  case (Cons x xs')
  then have "0 < length xs" by simp
  then show ?thesis
    using fold_insertion_inner [of "length xs" xs lt]
    by (simp add: sort_Slice_def insertionSort_def sort_by_def)
qed

lemma mset_bubble: "mset (bubble lt x rs) = add_mset x (mset rs)"
  by (induction rs) auto

lemma mset_fold_bubble: "mset (fold (bubble lt) xs acc) = mset xs + mset acc"
  by (induction xs arbitrary: acc) (auto simp: mset_bubble)

lemma mset_sort_by: "mset (sort_by lt xs) = mset xs"
  by (simp add: sort_by_def mset_fold_bubble)

lemma bubble_never: "(\<And>y. \<not> lt x y) \<Longrightarrow> bubble lt x rs = x # rs"
  by (cases rs) auto

lemma bubble_always: "(\<And>y. lt x y) \<Longrightarrow> bubble lt x rs = rs @ [x]"
  by (induction rs) auto

lemma sort_by_never: "sort_by (\<lambda>a b. False) xs = xs"
proof -
  have "fold (bubble (\<lambda>a b. False)) xs acc = rev xs @ acc" for acc :: "'a list"
    by (induction xs arbitrary: acc) (auto simp: bubble_never)
  then show ?thesis by (simp add: sort_by_def)
qed

lemma sort_by_always: "sort_by (\<lambda>a b. True) xs = rev xs"
proof -
  have "fold (bubble (\<lambda>a b. True)) xs acc = acc @ xs" for acc :: "'a list"
    by (induction xs arbitrary: acc) (auto simp: bubble_always)
  then show ?thesis by (simp add: sort_by_def)
qed

lemma filter_bubble_asc:
  assumes "\<And>y. lt x y \<Longrightarrow> \<not> (P x \<and> P y)"
  shows "filter P (bubble lt x rs) = filter P (x # rs)"
  using assms by (induction rs) auto

lemma filter_sort_by_stable:
  assumes "\<And>a b. lt a b \<Longrightarrow> \<not> (P a \<and> P b)"
  shows "filter P (sort_by lt xs) = filter P xs"
proof -
  have "filter P (fold (bubble lt) xs acc) = rev (filter P xs) @ filter P acc" for acc
  proof (induction xs arbitrary: acc)
    case Nil
    show ?case by simp
  next
    case (Cons x xs)
    have "filter P (bubble lt x acc) = filter P (x # acc)"
      by (rule filter_bubble_asc) (use assms in blast)
    with Cons show ?case by simp
  qed
  from this [of "[]"] have "filter P (fold (bubble lt) xs []) = rev (filter P xs)"
    by simp
  then have "rev (filter P (fold (bubble lt) xs [])) = filter P xs"
    by simp
  then show ?thesis by (simp add: sort_by_def rev_filter)
qed

lemma bubble_neg_sorted:
  assumes asym: "\<And>a b. lt a b \<Longrightarrow> \<not> lt b a"
    and trans: "\<And>a b c. lt a b \<Longrightarrow> lt b c \<Longrightarrow> lt a c"
    and srt: "sorted_wrt (\<lambda>y z. \<not> lt z y) rs"
  shows "sorted_wrt (\<lambda>y z. \<not> lt z y) (bubble (\<lambda>a b. \<not> lt a b) x rs)"
  using srt
proof (induction rs)
  case Nil
  show ?case by simp
next
  case (Cons y rs)
  show ?case
  proof (cases "lt x y")
    case True
    have "\<not> lt z x" if "z \<in> set rs" for z
    proof
      assume "lt z x"
      from this True have "lt z y" by (rule trans)
      with Cons.prems that show False by simp
    qed
    with True Cons.prems asym show ?thesis by auto
  next
    case False
    have "set (bubble (\<lambda>a b. \<not> lt a b) x rs) = insert x (set rs)"
      by (induction rs) auto
    with False Cons show ?thesis by auto
  qed
qed

lemma filter_bubble_neg:
  assumes cls: "\<And>a a' b. P a \<Longrightarrow> P a' \<Longrightarrow> lt a b = lt a' b"
    and irr: "\<And>a. \<not> lt a a"
    and srt: "sorted_wrt (\<lambda>y z. \<not> lt z y) rs"
  shows "filter P (bubble (\<lambda>a b. \<not> lt a b) x rs) = filter P (rs @ [x])"
  using srt
proof (induction rs)
  case Nil
  show ?case by simp
next
  case (Cons y rs)
  show ?case
  proof (cases "lt x y")
    case False
    with Cons show ?thesis by simp
  next
    case True
    show ?thesis
    proof (cases "P x")
      case False
      with True show ?thesis by simp
    next
      case px: True
      have "\<not> P z" if "z \<in> set (y # rs)" for z
      proof
        assume "P z"
        then have "lt z y = lt x y" using px by (rule cls)
        with True have "lt z y" by simp
        with Cons.prems that irr show False by auto
      qed
      then have "filter P (y # rs) = []"
        unfolding filter_empty_conv by simp
      with True px show ?thesis by (simp split: if_splits)
    qed
  qed
qed

lemma filter_sort_by_neg:
  assumes cls: "\<And>a a' b. P a \<Longrightarrow> P a' \<Longrightarrow> lt a b = lt a' b"
    and asym: "\<And>a b. lt a b \<Longrightarrow> \<not> lt b a"
    and trans: "\<And>a b c. lt a b \<Longrightarrow> lt b c \<Longrightarrow> lt a c"
  shows "filter P (sort_by (\<lambda>a b. \<not> lt a b) xs) = rev (filter P xs)"
proof -
  have irr: "\<not> lt a a" for a using asym by blast
  have "sorted_wrt (\<lambda>y z. \<not> lt z y) acc \<Longrightarrow>
        sorted_wrt (\<lambda>y z. \<not> lt z y) (fold (bubble (\<lambda>a b. \<not> lt a b)) xs acc) \<and>
        filter P (fold (bubble (\<lambda>a b. \<not> lt a b)) xs acc) = filter P acc @ filter P xs" for acc
  proof (induction xs arbitrary: acc)
    case Nil
    then show ?case by simp
  next
    case (Cons x xs)
    have s: "sorted_wrt (\<lambda>y z. \<not> lt z y) (bubble (\<lambda>a b. \<not> lt a b) x acc)"
      using asym trans Cons.prems by (rule bubble_neg_sorted)
    have f: "filter P (bubble (\<lambda>a b. \<not> lt a b) x acc) = filter P (acc @ [x])"
      using cls irr Cons.prems by (rule filter_bubble_neg)
    from Cons.IH [OF s] f show ?case by simp
  qed
  from this [of "[]"] have "filter P (fold (bubble (\<lambda>a b. \<not> lt a b)) xs []) = filter P xs"
    by simp
  then show ?thesis by (simp add: sort_by_def flip: rev_filter)
qed

lemma set_bubble: "set (bubble lt x rs) = insert x (set rs)"
  by (induction rs) auto

lemma bubble_sorted_asc:
  fixes key :: "'a \<Rightarrow> 'k::linorder"
  assumes "sorted (rev (map key rs))"
  shows "sorted (rev (map key (bubble (\<lambda>a b. key a < key b) x rs)))"
  using assms
  by (induction rs) (auto simp: sorted_append set_bubble)

lemma sorted_sort_by_asc:
  fixes key :: "'a \<Rightarrow> 'k::linorder"
  shows "sorted (map key (sort_by (\<lambda>a b. key a < key b) xs))"
proof -
  have "sorted (rev (map key acc)) \<Longrightarrow>
        sorted (rev (map key (fold (bubble (\<lambda>a b. key a < key b)) xs acc)))" for acc
    by (induction xs arbitrary: acc) (auto intro: bubble_sorted_asc)
  from this [of "[]"] show ?thesis by (simp add: sort_by_def rev_map)
qed

lemma bubble_sorted_desc:
  fixes key :: "'a \<Rightarrow> 'k::linorder"
  assumes "sorted (map key rs)"
  shows "sorted (map key (bubble (\<lambda>a b. \<not> key a < key b) x rs))"
  using assms
  by (induction rs) (auto simp: set_bubble)

lemma sorted_sort_by_desc:
  fixes key :: "'a \<Rightarrow> 'k::linorder"
  shows "sorted (rev (map key (sort_by (\<lambda>a b. \<not> key a < key b) xs)))"
proof -
  have "sorted (map key acc) \<Longrightarrow>
        sorted (map key (fold (bubble (\<lambda>a b. \<not> key a < key b)) xs acc))" for acc
    by (induction xs arbitrary: acc) (auto intro: bubble_sorted_desc)
  from this [of "[]"] show ?thesis by (simp add: sort_by_def rev_map)
qed

section \<open>Properties of sortResults\<close>

lemma float64_less_irrefl [simp]: "\<not> float64_less x x"
  by (cases x) auto

lemma float64_less_asym: "float64_less x y \<Longrightarrow> \<not> float64_less y x"
  by (cases x; cases y) auto

lemma float64_less_trans: "float64_less x y \<Longrightarrow> float64_less y z \<Longrightarrow> float64_less x z"
  by (cases x; cases y; cases z) auto

lemma mode_less_mode_lt:
  "mode_less mode = map_option (\<lambda>lt reports i j. lt (reports ! i) (reports ! j)) (mode_lt mode)"
  by (simp add: mode_less_def mode_lt_def)

lemma sortResults_sort_by:
  assumes "order_reverse order = Some reverse" and "mode_lt mode = Some lt"
  shows "sortResults reports mode order =
           (sort_by (\<lambda>a b. if reverse then \<not> lt a b else lt a b) reports, None)"
proof -
  have "sort_Slice (\<lambda>xs i j. if reverse then \<not> lt (xs ! i) (xs ! j) else lt (xs ! i) (xs ! j)) reports
          = sort_by (\<lambda>a b. if reverse then \<not> lt a b else lt a b) reports"
    by (rule sort_Slice_sort_by)
  with assms show ?thesis
    by (simp add: sortResults_def mode_less_mode_lt)
qed

lemma sortResults_asc:
  assumes "mode_lt mode = Some lt"
  shows "sortResults reports mode ''asc'' = (sort_by lt reports, None)"
  using sortResults_sort_by [of "''asc''" False mode lt reports] assms
  by (simp add: order_reverse_def)

lemma sortResults_desc:
  assumes "mode_lt mode = Some lt"
  shows "sortResults reports mode ''desc'' = (sort_by (\<lambda>a b. \<not> lt a b) reports, None)"
  using sortResults_sort_by [of "''desc''" True mode lt reports] assms
  by (simp add: order_reverse_def)

lemma sortResults_stmt_asc: "sortResults reports ''stmt'' ''asc'' = (reports, None)"
  using sortResults_asc [of "''stmt''" "\<lambda>a b. False" reports]
  by (simp add: mode_lt_def sort_by_never)

lemma sortResults_stmt_desc: "sortResults reports ''stmt'' ''desc'' = (rev reports, None)"
  using sortResults_desc [of "''stmt''" "\<lambda>a b. False" reports]
  by (simp add: mode_lt_def sort_by_always)

text \<open>
  Claim C1: sorting with the key \<open>stmt\<close> orders the summaries by StmtCoverage,
  non-decreasing for \<open>asc\<close>. The closure of the case \<open>stmt\<close> compares
  \<open>reports[j]\<close> with itself, where every other case compares \<open>reports[i]\<close> with
  \<open>reports[j]\<close>: it is never true, and the slice stays as it was. Here the summary
  with 80 percent stays in front of the one with 50 percent.
\<close>

theorem stmt_asc_not_sorted:
  "sortResults [summary_of ''a.go'' 5 1 80, summary_of ''b.go'' 2 1 50] ''stmt'' ''asc''
     = ([summary_of ''a.go'' 5 1 80, summary_of ''b.go'' 2 1 50], None)
   \<and> StmtCoverage (summary_of ''a.go'' 5 1 80) = Finite 80
   \<and> StmtCoverage (summary_of ''b.go'' 2 1 50) = Finite 50
   \<and> float64_less (StmtCoverage (summary_of ''b.go'' 2 1 50))
        (StmtCoverage (summary_of ''a.go'' 5 1 80))"
  by (simp add: sortResults_stmt_asc summary_of_def)

text \<open>
  Claim C3 says that elements with equal keys keep their relative order in both
  directions. Two summaries with the same MissingBlocks come out in the order they had
  when sorted ascending, and swapped when sorted descending.
\<close>

theorem desc_reverses_ties_counterexample:
  "MissingBlocks (summary_of ''a.go'' 5 1 80) = MissingBlocks (summary_of ''b.go'' 2 1 50)
   \<and> fst (sortResults [summary_of ''a.go'' 5 1 80, summary_of ''b.go'' 2 1 50] ''missing-blocks'' ''asc'')
       = [summary_of ''a.go'' 5 1 80, summary_of ''b.go'' 2 1 50]
   \<and> fst (sortResults [summary_of ''a.go'' 5 1 80, summary_of ''b.go'' 2 1 50] ''missing-blocks'' ''desc'')
       = [summary_of ''b.go'' 2 1 50, summary_of ''a.go'' 5 1 80]"
  by (simp add: sortResults_def order_reverse_def mode_less_def sort_Slice_def
      insertionSort_def swap_def summary_of_def)

lemma mode_lt_simps:
  "mode_lt ''filename'' = Some (\<lambda>a b. Name a < Name b)"
  "mode_lt ''block'' = Some (\<lambda>a b. float64_less (BlockCoverage a) (BlockCoverage b))"
  "mode_lt ''stmt'' = Some (\<lambda>a b. False)"
  "mode_lt ''missing-blocks'' = Some (\<lambda>a b. MissingBlocks a <s MissingBlocks b)"
  "mode_lt ''missing-stmts'' = Some (\<lambda>a b. MissingStmts a <s MissingStmts b)"
  by (simp_all add: mode_lt_def)

lemma same_key_simps:
  "same_key ''filename'' a b \<longleftrightarrow> Name b = Name a"
  "same_key ''block'' a b \<longleftrightarrow> BlockCoverage b = BlockCoverage a"
  "same_key ''stmt'' a b \<longleftrightarrow> StmtCoverage b = StmtCoverage a"
  "same_key ''missing-blocks'' a b \<longleftrightarrow> MissingBlocks b = MissingBlocks a"
  "same_key ''missing-stmts'' a b \<longleftrightarrow> MissingStmts b = MissingStmts a"
  by (simp_all add: same_key_def)

lemma mode_lt_cases:
  assumes "mode \<in> set [''filename'', ''block'', ''stmt'', ''missing-blocks'', ''missing-stmts'']"
  obtains lt where "mode_lt mode = Some lt"
    and "\<And>a b. lt a b \<Longrightarrow> \<not> same_key mode a b"
    and "\<And>a a' b. same_key mode a a' \<Longrightarrow> lt a b = lt a' b"
    and "\<And>a b. lt a b \<Longrightarrow> \<not> lt b a"
    and "\<And>a b c. lt a b \<Longrightarrow> lt b c \<Longrightarrow> lt a c"
proof -
  from assms have "mode = ''filename'' \<or> mode = ''block'' \<or> mode = ''stmt''
      \<or> mode = ''missing-blocks'' \<or> mode = ''missing-stmts''"
    by (simp only: set_simps insert_iff empty_iff simp_thms)
  then consider "mode = ''filename''" | "mode = ''block''" | "mode = ''stmt''"
    | "mode = ''missing-blocks''" | "mode = ''missing-stmts''"
    by (elim disjE)
  then show thesis
  proof cases
    case 1
    show thesis
    proof (rule that [of "\<lambda>a b. Name a < Name b"])
      show "mode_lt mode = Some (\<lambda>a b. Name a < Name b)"
        unfolding 1 by (rule mode_lt_simps)
      show "\<not> same_key mode a b" if "Name a < Name b" for a b
        using that unfolding 1 same_key_simps by simp
      show "(Name a < Name b) = (Name a' < Name b)" if "same_key mode a a'" for a a' b
        using that unfolding 1 same_key_simps by simp
      show "\<not> Name b < Name a" if "Name a < Name b" for a b
        using that by (rule less_not_sym)
      show "Name a < Name c" if "Name a < Name b" "Name b < Name c" for a b c
        using that by (rule less_trans)
    qed
  next
    case 2
    show thesis
    proof (rule that [of "\<lambda>a b. float64_less (BlockCoverage a) (BlockCoverage b)"])
      show "mode_lt mode = Some (\<lambda>a b. float64_less (BlockCoverage a) (BlockCoverage b))"
        unfolding 2 by (rule mode_lt_simps)
      show "\<not> same_key mode a b" if "float64_less (BlockCoverage a) (BlockCoverage b)" for a b
        using that unfolding 2 same_key_simps by (metis float64_less_irrefl)
      show "float64_less (BlockCoverage a) (BlockCoverage b)
              = float64_less (BlockCoverage a') (BlockCoverage b)"
        if "same_key mode a a'" for a a' b
        using that unfolding 2 same_key_simps by simp
      show "\<not> float64_less (BlockCoverage b) (BlockCoverage a)"
        if "float64_less (BlockCoverage a) (BlockCoverage b)" for a b
        using that by (rule float64_less_asym)
      show "float64_less (BlockCoverage a) (BlockCoverage c)"
        if "float64_less (BlockCoverage a) (BlockCoverage b)"
          "float64_less (BlockCoverage b) (BlockCoverage c)" for a b c
        using that by (rule float64_less_trans)
    qed
  next
    case 3
    show thesis
    proof (rule that [of "\<lambda>a b. False"])
      show "mode_lt mode = Some (\<lambda>a b. False)"
        unfolding 3 by (rule mode_lt_simps)
    qed simp_all
  next
    case 4
    show thesis
    proof (rule that [of "\<lambda>a b. MissingBlocks a <s MissingBlocks b"])
      show "mode_lt mode = Some (\<lambda>a b. MissingBlocks a <s MissingBlocks b)"
        unfolding 4 by (rule mode_lt_simps)
      show "\<not> same_key mode a b" if "MissingBlocks a <s MissingBlocks b" for a b
        using that unfolding 4 same_key_simps by auto
      show "(MissingBlocks a <s MissingBlocks b) = (MissingBlocks a' <s MissingBlocks b)"
        if "same_key mode a a'" for a a' b
        using that unfolding 4 same_key_simps by simp
      show "\<not> MissingBlocks b <s MissingBlocks a" if "MissingBlocks a <s MissingBlocks b" for a b
        using that by (rule signed.less_not_sym)
      show "MissingBlocks a <s MissingBlocks c"
        if "MissingBlocks a <s MissingBlocks b" "MissingBlocks b <s MissingBlocks c" for a b c
        using that by (rule signed.less_trans)
    qed
  next
    case 5
    show thesis
    proof (rule that [of "\<lambda>a b. MissingStmts a <s MissingStmts b"])
      show "mode_lt mode = Some (\<lambda>a b. MissingStmts a <s MissingStmts b)"
        unfolding 5 by (rule mode_lt_simps)
      show "\<not> same_key mode a b" if "MissingStmts a <s MissingStmts b" for a b
        using that unfolding 5 same_key_simps by auto
      show "(MissingStmts a <s MissingStmts b) = (MissingStmts a' <s MissingStmts b)"
        if "same_key mode a a'" for a a' b
        using that unfolding 5 same_key_simps by simp
      show "\<not> MissingStmts b <s MissingStmts a" if "MissingStmts a <s MissingStmts b" for a b
        using that by (rule signed.less_not_sym)
      show "MissingStmts a <s MissingStmts c"
        if "MissingStmts a <s MissingStmts b" "MissingStmts b <s MissingStmts c" for a b c
        using that by (rule signed.less_trans)
    qed
  qed
qed

lemma same_key_trans: "same_key mode s a \<Longrightarrow> same_key mode s b \<Longrightarrow> same_key mode a b"
  by (simp add: same_key_def split: if_splits)

text \<open>
  Claim C3, as the code has it: on a slice of at most 12 elements, for each of the five
  sort keys, the summaries that share the key value of a summary \<open>s\<close> appear in
  their order before the sort when the direction is \<open>asc\<close>, and in the reverse of
  that order when it is \<open>desc\<close>.
\<close>

theorem sortResults_ties:
  assumes mode: "mode \<in> set [''filename'', ''block'', ''stmt'', ''missing-blocks'', ''missing-stmts'']"
    and len: "length reports \<le> 12"
  shows "filter (same_key mode s) (fst (sortResults reports mode ''asc''))
           = filter (same_key mode s) reports
       \<and> filter (same_key mode s) (fst (sortResults reports mode ''desc''))
           = rev (filter (same_key mode s) reports)"
  using mode
proof (rule mode_lt_cases)
  fix lt
  assume lt: "mode_lt mode = Some lt"
    and ne: "\<And>a b. lt a b \<Longrightarrow> \<not> same_key mode a b"
    and cls: "\<And>a a' b. same_key mode a a' \<Longrightarrow> lt a b = lt a' b"
    and asym: "\<And>a b. lt a b \<Longrightarrow> \<not> lt b a"
    and trans: "\<And>a b c. lt a b \<Longrightarrow> lt b c \<Longrightarrow> lt a c"
  have "filter (same_key mode s) (sort_by lt reports) = filter (same_key mode s) reports"
  proof (rule filter_sort_by_stable)
    fix a b assume "lt a b"
    then have "\<not> same_key mode a b" by (rule ne)
    then show "\<not> (same_key mode s a \<and> same_key mode s b)"
      using same_key_trans by blast
  qed
  moreover
  have "filter (same_key mode s) (sort_by (\<lambda>a b. \<not> lt a b) reports)
          = rev (filter (same_key mode s) reports)"
  proof (rule filter_sort_by_neg)
    fix a a' b assume "same_key mode s a" "same_key mode s a'"
    then have "same_key mode a a'" by (rule same_key_trans)
    then show "lt a b = lt a' b" by (rule cls)
  qed (fact asym, fact trans)
  ultimately show ?thesis
    by (simp add: sortResults_asc [OF lt] sortResults_desc [OF lt])
qed

text \<open>
  For C3: three summaries, two of them with one missing block, sorted by
  \<open>missing-blocks\<close>.
\<close>

theorem sortResults_ties_witness:
  "filter (same_key ''missing-blocks'' (summary_of ''a.go'' 5 1 80))
      (fst (sortResults [summary_of ''a.go'' 5 1 80, summary_of ''c.go'' 4 0 100, summary_of ''b.go'' 2 1 50]
         ''missing-blocks'' ''asc''))
     = [summary_of ''a.go'' 5 1 80, summary_of ''b.go'' 2 1 50]
   \<and> filter (same_key ''missing-blocks'' (summary_of ''a.go'' 5 1 80))
      (fst (sortResults [summary_of ''a.go'' 5 1 80, summary_of ''c.go'' 4 0 100, summary_of ''b.go'' 2 1 50]
         ''missing-blocks'' ''desc''))
     = [summary_of ''b.go'' 2 1 50, summary_of ''a.go'' 5 1 80]"
  using sortResults_ties [of "''missing-blocks''"
      "[summary_of ''a.go'' 5 1 80, summary_of ''c.go'' 4 0 100, summary_of ''b.go'' 2 1 50]"
      "summary_of ''a.go'' 5 1 80"]
  by (simp add: same_key_def summary_of_def)

section \<open>Accumulation\<close>

lemma add_fields:
  "name (add b a) = name a"
  "blocks (add b a) = blocks a + 1"
  "stmts (add b a) = stmts a + NumStmt b"
  "coveredBlocks (add b a) = (if 0 <s Count b then coveredBlocks a + 1 else coveredBlocks a)"
  "coveredStmts (add b a) = (if 0 <s Count b then coveredStmts a + NumStmt b else coveredStmts a)"
  by (simp_all add: add_def Let_def)

lemma fold_add_fields:
  "name (fold add bs a) = name a"
  "blocks (fold add bs a) = blocks a + of_nat (length bs)"
  "stmts (fold add bs a) = stmts a + sum_list (map NumStmt bs)"
  "coveredBlocks (fold add bs a)
     = coveredBlocks a + of_nat (length (filter (\<lambda>b. 0 <s Count b) bs))"
  "coveredStmts (fold add bs a)
     = coveredStmts a + sum_list (map NumStmt (filter (\<lambda>b. 0 <s Count b) bs))"
  by (induction bs arbitrary: a; simp add: add_fields algebra_simps)+

lemma fold_add_pair:
  "fold (\<lambda>block (t, f). (add block t, add block f)) bs (t, f) = (fold add bs t, fold add bs f)"
  by (induction bs arbitrary: t f) auto

lemma skip_file_iff: "skip_file exclusions fileName \<longleftrightarrow> (\<exists>e\<in>set exclusions. HasPrefix fileName e)"
proof -
  have "fold (\<lambda>exclusion skip. if HasPrefix fileName exclusion then True else skip) xs s
          \<longleftrightarrow> s \<or> (\<exists>e\<in>set xs. HasPrefix fileName e)" for xs s
    by (induction xs arbitrary: s) auto
  then show ?thesis by (simp add: skip_file_def)
qed

lemma add_profile_eq:
  "add_profile rootDir exclusions profile (t, files) =
     (if skip_file exclusions (display_name rootDir profile) then (t, files)
      else (fold add (Profile.Blocks profile) t,
            AList.update (display_name rootDir profile)
              (fold add (Profile.Blocks profile)
                 (case map_of files (display_name rootDir profile) of
                    Some a \<Rightarrow> a
                  | None \<Rightarrow> new_accumulator (display_name rootDir profile)))
              files))"
  by (simp add: add_profile_def Let_def fold_add_pair)

lemma HasPrefix_Nil [simp]: "HasPrefix s []"
  by (simp add: HasPrefix_def)

lemma fold_add_profile_skip_all:
  assumes "[] \<in> set exclusions"
  shows "fold (add_profile rootDir exclusions) profiles st = st"
proof -
  from assms have "skip_file exclusions n" for n
    unfolding skip_file_iff by (rule bexI [rotated]) simp
  then show ?thesis
    by (induction profiles) (auto simp: add_profile_def Let_def)
qed

section \<open>Errors\<close>

lemma order_reverse_None: "order_reverse order = None \<longleftrightarrow> order \<noteq> ''asc'' \<and> order \<noteq> ''desc''"
  by (simp add: order_reverse_def)

lemma mode_less_None:
  "mode_less mode = None \<longleftrightarrow>
     mode \<notin> set [''filename'', ''block'', ''stmt'', ''missing-blocks'', ''missing-stmts'']"
  by (simp add: mode_less_def)

lemma makeReport_bad_order:
  assumes "order \<noteq> ''asc''" "order \<noteq> ''desc''"
  shows "makeReport seed t files sortBy order
           = (Report_zero, Some ''Order must be either asc or desc'')"
  using assms by (simp add: makeReport_def sortResults_def order_reverse_def)

lemma makeReport_bad_key:
  assumes "order = ''asc'' \<or> order = ''desc''"
    and "sortBy \<notin> set [''filename'', ''block'', ''stmt'', ''missing-blocks'', ''missing-stmts'']"
  shows "makeReport seed t files sortBy order
           = (Report_zero,
              Some ''Invalid sort colum, must be one of filename, block, stmt, missing-blocks or missing-stmts'')"
proof -
  from assms(1) have "\<exists>rv. order_reverse order = Some rv"
    by (auto simp: order_reverse_def)
  then obtain rv where "order_reverse order = Some rv" ..
  moreover from assms(2) have "mode_less sortBy = None"
    unfolding mode_less_None .
  ultimately show ?thesis
    by (simp add: makeReport_def sortResults_def)
qed

lemma GenerateReport_parsed:
  "GenerateReport seed (profiles, None) rootDir exclusions sortBy order =
     makeReport seed
       (fst (fold (add_profile rootDir exclusions) profiles (new_accumulator ''Total'', [])))
       (snd (fold (add_profile rootDir exclusions) profiles (new_accumulator ''Total'', [])))
       sortBy order"
  by (simp add: GenerateReport_def split: prod.splits)

text \<open>
  Claim C6 says that an invalid sort argument gives an invalid-argument error for every
  input. The profile is parsed first: when the parser fails, the error returned is the
  one made from the parser's, whatever the sort arguments are.
\<close>

theorem parse_failure_before_sort_arguments:
  "GenerateReport [] ([], Some ''unreadable'') [] [] ''filename'' ''bogus''
     = (Report_zero,
        Some (''Invalid coverprofile: '' @ [CHR 0x27] @ ''unreadable'' @ [CHR 0x27]))
   \<and> snd (GenerateReport [] ([], Some ''unreadable'') [] [] ''filename'' ''bogus'')
     \<noteq> Some ''Order must be either asc or desc''"
  by (simp add: GenerateReport_def)

text \<open>
  Claim C6, as the code has it. On parsed profiles, a direction other than \<open>asc\<close>
  and \<open>desc\<close> makes GenerateReport return the error of the direction, whatever the
  key is, and a key other than the five known ones, with a valid direction, the error
  of the key: the direction is checked first. With an invalid sort argument the result
  is always an error and the zero Report, never a populated one. When the parser
  failed, that error is the one made from the parser's, whatever the sort arguments.
\<close>

theorem invalid_sort_arguments:
  "(order \<noteq> ''asc'' \<and> order \<noteq> ''desc'' \<longrightarrow>
      GenerateReport seed (profiles, None) rootDir exclusions sortBy order
        = (Report_zero, Some ''Order must be either asc or desc''))
   \<and> ((order = ''asc'' \<or> order = ''desc'') \<and>
      sortBy \<notin> set [''filename'', ''block'', ''stmt'', ''missing-blocks'', ''missing-stmts''] \<longrightarrow>
      GenerateReport seed (profiles, None) rootDir exclusions sortBy order
        = (Report_zero,
           Some ''Invalid sort colum, must be one of filename, block, stmt, missing-blocks or missing-stmts''))
   \<and> ((order \<noteq> ''asc'' \<and> order \<noteq> ''desc'') \<or>
      sortBy \<notin> set [''filename'', ''block'', ''stmt'', ''missing-blocks'', ''missing-stmts''] \<longrightarrow>
      (\<exists>err. GenerateReport seed parsed rootDir exclusions sortBy order = (Report_zero, Some err)))
   \<and> GenerateReport seed (profiles, Some perr) rootDir exclusions sortBy order
       = (Report_zero, Some (''Invalid coverprofile: '' @ [CHR 0x27] @ perr @ [CHR 0x27]))"
proof (intro conjI impI)
  show "GenerateReport seed (profiles, Some perr) rootDir exclusions sortBy order
       = (Report_zero, Some (''Invalid coverprofile: '' @ [CHR 0x27] @ perr @ [CHR 0x27]))"
    by (simp add: GenerateReport_def)
next
  assume "order \<noteq> ''asc'' \<and> order \<noteq> ''desc''"
  then show "GenerateReport seed (profiles, None) rootDir exclusions sortBy order
        = (Report_zero, Some ''Order must be either asc or desc'')"
    unfolding GenerateReport_parsed by (intro makeReport_bad_order) simp_all
next
  assume "(order = ''asc'' \<or> order = ''desc'') \<and>
      sortBy \<notin> set [''filename'', ''block'', ''stmt'', ''missing-blocks'', ''missing-stmts'']"
  then show "GenerateReport seed (profiles, None) rootDir exclusions sortBy order
        = (Report_zero,
           Some ''Invalid sort colum, must be one of filename, block, stmt, missing-blocks or missing-stmts'')"
    unfolding GenerateReport_parsed by (intro makeReport_bad_key) simp_all
next
  assume bad: "(order \<noteq> ''asc'' \<and> order \<noteq> ''desc'') \<or>
      sortBy \<notin> set [''filename'', ''block'', ''stmt'', ''missing-blocks'', ''missing-stmts'']"
  obtain ps e where parsed: "parsed = (ps, e)" by (cases parsed)
  show "\<exists>err. GenerateReport seed parsed rootDir exclusions sortBy order = (Report_zero, Some err)"
  proof (cases e)
    case (Some msg)
    with parsed show ?thesis by (simp add: GenerateReport_def)
  next
    case None
    show ?thesis
    proof (cases "order = ''asc'' \<or> order = ''desc''")
      case False
      then have "makeReport seed
          (fst (fold (add_profile rootDir exclusions) ps (new_accumulator ''Total'', [])))
          (snd (fold (add_profile rootDir exclusions) ps (new_accumulator ''Total'', [])))
          sortBy order = (Report_zero, Some ''Order must be either asc or desc'')"
        by (intro makeReport_bad_order) simp_all
      then show ?thesis
        unfolding parsed None GenerateReport_parsed by (rule exI)
    next
      case True
      with bad have "sortBy \<notin> set [''filename'', ''block'', ''stmt'', ''missing-blocks'', ''missing-stmts'']"
        by blast
      with True have "makeReport seed
          (fst (fold (add_profile rootDir exclusions) ps (new_accumulator ''Total'', [])))
          (snd (fold (add_profile rootDir exclusions) ps (new_accumulator ''Total'', [])))
          sortBy order = (Report_zero,
             Some ''Invalid sort colum, must be one of filename, block, stmt, missing-blocks or missing-stmts'')"
        by (intro makeReport_bad_key)
      then show ?thesis
        unfolding parsed None GenerateReport_parsed by (rule exI)
    qed
  qed
qed

text \<open>
  For C6: a wrong direction with a wrong key, a wrong key alone, and a wrong direction
  after a failed parse.
\<close>

theorem invalid_sort_arguments_witness:
  "GenerateReport [] (two_files, None) [] [] ''bogus'' ''bogus''
     = (Report_zero, Some ''Order must be either asc or desc'')
   \<and> GenerateReport [] (two_files, None) [] [] ''bogus'' ''asc''
     = (Report_zero,
        Some ''Invalid sort colum, must be one of filename, block, stmt, missing-blocks or missing-stmts'')
   \<and> (\<exists>err. GenerateReport [] (two_files, Some ''unreadable'') [] [] ''filename'' ''bogus''
          = (Report_zero, Some err))"
  using invalid_sort_arguments [where order = "''bogus''" and sortBy = "''bogus''"
      and seed = "[]" and profiles = two_files and rootDir = "[]" and exclusions = "[]"
      and parsed = "(two_files, Some ''unreadable'')"]
    invalid_sort_arguments [where order = "''asc''" and sortBy = "''bogus''"
      and seed = "[]" and profiles = two_files and rootDir = "[]" and exclusions = "[]"
      and parsed = "(two_files, Some ''unreadable'')"]
    invalid_sort_arguments [where order = "''bogus''" and sortBy = "''filename''"
      and seed = "[]" and profiles = two_files and rootDir = "[]" and exclusions = "[]"
      and parsed = "(two_files, Some ''unreadable'')"]
  by simp

text \<open>
  Claim C9 says that the error of the parser is returned unchanged. The error returned
  is a new one, made by \<open>fmt.Errorf\<close>: its message is not the message of the parser.
\<close>

theorem parse_error_not_unchanged:
  "GenerateReport [] ([], Some ''open cover.out: no such file or directory'') [] []
      ''filename'' ''asc''
     = (Report_zero,
        Some (''Invalid coverprofile: '' @ [CHR 0x27]
              @ ''open cover.out: no such file or directory'' @ [CHR 0x27]))
   \<and> snd (GenerateReport [] ([], Some ''open cover.out: no such file or directory'') [] []
        ''filename'' ''asc'')
     \<noteq> Some ''open cover.out: no such file or directory''"
  by (simp add: GenerateReport_def)

text \<open>
  Claim C9, as the code has it: when the parser fails, GenerateReport returns the zero
  Report and a new error whose message is \<open>Invalid coverprofile: '\<close>, the message of
  the parser's error, and \<open>'\<close>. Nothing is accumulated or sorted: the profiles, the
  root, the exclusions and the sort arguments, valid or not, have no part in the result.
\<close>

theorem parse_error_wrapped:
  "GenerateReport seed (profiles, Some err) rootDir exclusions sortBy order
     = (Report_zero, Some (''Invalid coverprofile: '' @ [CHR 0x27] @ err @ [CHR 0x27]))"
  by (simp add: GenerateReport_def)

lemma sortResults_Nil:
  assumes "order = ''asc'' \<or> order = ''desc''"
    and "sortBy \<in> set [''filename'', ''block'', ''stmt'', ''missing-blocks'', ''missing-stmts'']"
  shows "sortResults [] sortBy order = ([], None)"
  using assms(2)
proof (rule mode_lt_cases)
  fix lt assume lt: "mode_lt sortBy = Some lt"
  from assms(1) show ?thesis
    by (auto simp: sortResults_asc [OF lt] sortResults_desc [OF lt] sort_by_def)
qed

text \<open>
  Claim C10: when the empty string is among the exclusions, every file is skipped: for
  parsed profiles and valid sort arguments GenerateReport returns no error, no file
  summary, and a Total whose Blocks, Stmts, MissingBlocks and MissingStmts are zero.
\<close>

theorem empty_exclusion_excludes_all:
  assumes "[] \<in> set exclusions"
    and "order = ''asc'' \<or> order = ''desc''"
    and "sortBy \<in> set [''filename'', ''block'', ''stmt'', ''missing-blocks'', ''missing-stmts'']"
  shows "snd (GenerateReport seed (profiles, None) rootDir exclusions sortBy order) = None
    \<and> Files (fst (GenerateReport seed (profiles, None) rootDir exclusions sortBy order)) = []
    \<and> Summary.Blocks (Total (fst (GenerateReport seed (profiles, None) rootDir exclusions sortBy order))) = 0
    \<and> Stmts (Total (fst (GenerateReport seed (profiles, None) rootDir exclusions sortBy order))) = 0
    \<and> MissingBlocks (Total (fst (GenerateReport seed (profiles, None) rootDir exclusions sortBy order))) = 0
    \<and> MissingStmts (Total (fst (GenerateReport seed (profiles, None) rootDir exclusions sortBy order))) = 0"
proof -
  have "GenerateReport seed (profiles, None) rootDir exclusions sortBy order
          = makeReport seed (new_accumulator ''Total'') [] sortBy order"
    unfolding GenerateReport_parsed fold_add_profile_skip_all [OF assms(1)] by simp
  also have "\<dots> = (\<lparr>Total = results (new_accumulator ''Total''), Files = []\<rparr>, None)"
    by (simp add: makeReport_def sortResults_Nil [OF assms(2,3)])
  finally show ?thesis
    by (simp add: results_def new_accumulator_def)
qed

text \<open>
  For C10: the two files with the exclusions \<open>vendor\<close> and the empty string.
\<close>

theorem empty_exclusion_excludes_all_witness:
  "snd (GenerateReport [1] (two_files, None) [] [''vendor'', []] ''block'' ''desc'') = None
    \<and> Files (fst (GenerateReport [1] (two_files, None) [] [''vendor'', []] ''block'' ''desc'')) = []
    \<and> Summary.Blocks (Total (fst (GenerateReport [1] (two_files, None) [] [''vendor'', []] ''block'' ''desc''))) = 0
    \<and> Stmts (Total (fst (GenerateReport [1] (two_files, None) [] [''vendor'', []] ''block'' ''desc''))) = 0
    \<and> MissingBlocks (Total (fst (GenerateReport [1] (two_files, None) [] [''vendor'', []] ''block'' ''desc''))) = 0
    \<and> MissingStmts (Total (fst (GenerateReport [1] (two_files, None) [] [''vendor'', []] ''block'' ''desc''))) = 0"
  using empty_exclusion_excludes_all [of "[''vendor'', []]" "''desc''" "''block''" "[1]" two_files "[]"]
  by simp

section \<open>The display name\<close>

lemma Index_None_iff:
  "Index s substr = None \<longleftrightarrow> (\<forall>i\<le>length s. \<not> HasPrefix (drop i s) substr)"
proof (induction s)
  case Nil
  show ?case by (auto simp: HasPrefix_def)
next
  case (Cons c s)
  have "(\<forall>i\<le>Suc (length s). \<not> HasPrefix (drop i (c # s)) substr)
          \<longleftrightarrow> \<not> HasPrefix (c # s) substr \<and> (\<forall>i\<le>length s. \<not> HasPrefix (drop i s) substr)"
    (is "?l \<longleftrightarrow> ?r")
  proof
    assume l: ?l
    from l [rule_format, of 0] have "\<not> HasPrefix (c # s) substr" by simp
    moreover have "\<not> HasPrefix (drop i s) substr" if "i \<le> length s" for i
      using l [rule_format, of "Suc i"] that by simp
    ultimately show ?r by blast
  next
    assume r: ?r
    show ?l
    proof (intro allI impI)
      fix i assume "i \<le> Suc (length s)"
      with r show "\<not> HasPrefix (drop i (c # s)) substr" by (cases i) auto
    qed
  qed
  with Cons.IH show ?case by simp
qed

lemma Index_Some_iff:
  "Index s substr = Some j \<longleftrightarrow>
     j \<le> length s \<and> HasPrefix (drop j s) substr \<and> (\<forall>i<j. \<not> HasPrefix (drop i s) substr)"
proof (induction s arbitrary: j)
  case Nil
  show ?case by (auto simp: HasPrefix_def)
next
  case (Cons c s)
  show ?case
  proof (cases "HasPrefix (c # s) substr")
    case True
    have "j = 0" if "\<forall>i<j. \<not> HasPrefix (drop i (c # s)) substr"
    proof (rule ccontr)
      assume "j \<noteq> 0"
      with that [rule_format, of 0] True show False by simp
    qed
    with True show ?thesis by auto
  next
    case False
    show ?thesis
    proof (cases j)
      case 0
      with False show ?thesis by simp
    next
      case (Suc k)
      have "(\<forall>i<Suc k. \<not> HasPrefix (drop i (c # s)) substr)
              \<longleftrightarrow> (\<forall>i<k. \<not> HasPrefix (drop i s) substr)" (is "?l \<longleftrightarrow> ?r")
      proof
        assume l: ?l
        show ?r
        proof (intro allI impI)
          fix i assume "i < k"
          with l [rule_format, of "Suc i"] show "\<not> HasPrefix (drop i s) substr" by simp
        qed
      next
        assume r: ?r
        show ?l
        proof (intro allI impI)
          fix i assume "i < Suc k"
          with r False show "\<not> HasPrefix (drop i (c # s)) substr" by (cases i) auto
        qed
      qed
      with False Suc Cons.IH [of k] show ?thesis by auto
    qed
  qed
qed

lemma Replace_del_no_occurrence:
  assumes "\<forall>i\<le>length s. \<not> HasPrefix (drop i s) old"
  shows "Replace_del s old = s"
proof -
  from assms have "Index s old = None" by (simp only: Index_None_iff)
  then show ?thesis by (simp add: Replace_del.simps)
qed

lemma Replace_del_first_occurrence:
  assumes "old \<noteq> []" and "\<forall>i<length u. \<not> HasPrefix (drop i (u @ old @ v)) old"
  shows "Replace_del (u @ old @ v) old = u @ Replace_del v old"
proof -
  have "HasPrefix (drop (length u) (u @ old @ v)) old"
    by (simp add: HasPrefix_def)
  with assms(2) have "Index (u @ old @ v) old = Some (length u)"
    by (simp add: Index_Some_iff)
  with assms(1) show ?thesis
    by (subst Replace_del.simps) simp
qed

text \<open>
  Claim C2 says that only one occurrence of \<open>root + "/"\<close>, at the start of the path,
  is removed. With the root \<open>src\<close>, the path \<open>vendor/src/a.go\<close> does not start
  with \<open>src/\<close> and is changed all the same, and \<open>src/src/a.go\<close> loses both
  occurrences.
\<close>

theorem display_name_not_prefix_only:
  "\<not> HasPrefix ''vendor/src/a.go'' ''src/''
   \<and> display_name ''src'' (profile_of ''vendor/src/a.go'' []) = ''vendor/a.go''
   \<and> display_name ''src'' (profile_of ''src/src/a.go'' []) = ''a.go''"
  by (simp add: display_name_def profile_of_def Replace_del.simps HasPrefix_def)

text \<open>
  Claim C2, as the code has it: with an empty root the display name is the raw path.
  Otherwise every occurrence of \<open>root + "/"\<close> is removed, wherever it stands, from left
  to right: a path in which \<open>root + "/"\<close> occurs at no position is unchanged, and a
  path whose first occurrence comes after \<open>u\<close> and is followed by \<open>v\<close> gets the
  name \<open>u\<close> followed by the display name of \<open>v\<close>.
\<close>

theorem display_name_removes_all:
  "(rootDir = [] \<longrightarrow> display_name rootDir profile = FileName profile)
   \<and> (rootDir \<noteq> [] \<and>
        (\<forall>i\<le>length (FileName profile). \<not> HasPrefix (drop i (FileName profile)) (rootDir @ ''/''))
      \<longrightarrow> display_name rootDir profile = FileName profile)
   \<and> (rootDir \<noteq> [] \<and> FileName profile = u @ (rootDir @ ''/'') @ v \<and>
        (\<forall>i<length u. \<not> HasPrefix (drop i (FileName profile)) (rootDir @ ''/''))
      \<longrightarrow> display_name rootDir profile = u @ display_name rootDir (profile\<lparr>FileName := v\<rparr>))"
proof (intro conjI impI)
  assume "rootDir = []"
  then show "display_name rootDir profile = FileName profile"
    by (simp add: display_name_def)
next
  assume "rootDir \<noteq> [] \<and>
    (\<forall>i\<le>length (FileName profile). \<not> HasPrefix (drop i (FileName profile)) (rootDir @ ''/''))"
  then show "display_name rootDir profile = FileName profile"
    by (simp add: display_name_def Replace_del_no_occurrence)
next
  assume a: "rootDir \<noteq> [] \<and> FileName profile = u @ (rootDir @ ''/'') @ v \<and>
    (\<forall>i<length u. \<not> HasPrefix (drop i (FileName profile)) (rootDir @ ''/''))"
  then have fn: "FileName profile = u @ (rootDir @ ''/'') @ v" by blast
  from a have "\<forall>i<length u. \<not> HasPrefix (drop i (FileName profile)) (rootDir @ ''/'')"
    by blast
  then have "\<forall>i<length u. \<not> HasPrefix (drop i (u @ (rootDir @ ''/'') @ v)) (rootDir @ ''/'')"
    unfolding fn .
  then have "Replace_del (u @ (rootDir @ ''/'') @ v) (rootDir @ ''/'')
               = u @ Replace_del v (rootDir @ ''/'')"
    by (intro Replace_del_first_occurrence) simp_all
  with a show "display_name rootDir profile = u @ display_name rootDir (profile\<lparr>FileName := v\<rparr>)"
    by (simp add: display_name_def)
qed

text \<open>
  For C2: an empty root, a path without occurrence, and a path with two occurrences
  after \<open>vendor/\<close>.
\<close>

theorem display_name_removes_all_witness:
  "display_name [] (profile_of ''src/a.go'' []) = ''src/a.go''
   \<and> display_name ''src'' (profile_of ''main.go'' []) = ''main.go''
   \<and> display_name ''src'' (profile_of ''vendor/src/src/a.go'' [])
       = ''vendor/'' @ display_name ''src'' (profile_of ''src/a.go'' [])"
  using display_name_removes_all [of "[]" "profile_of ''src/a.go'' []"]
    display_name_removes_all [of "''src''" "profile_of ''main.go'' []"]
    display_name_removes_all [of "''src''" "profile_of ''vendor/src/src/a.go'' []" "''vendor/''" "''src/a.go''"]
  by (simp add: profile_of_def HasPrefix_def All_less_Suc2 flip: less_Suc_eq_le)

section \<open>The summary of an accumulator\<close>

lemma sum_list_word_of_int:
  "sum_list ws = (word_of_int (\<Sum>w\<leftarrow>ws. sint w) :: 'a::len word)"
  by (induction ws) simp_all

lemma sum_list_filter_split:
  fixes f :: "'a \<Rightarrow> 'b::comm_monoid_add"
  shows "sum_list (map f xs)
           = sum_list (map f (filter P xs)) + sum_list (map f (filter (\<lambda>x. \<not> P x) xs))"
  by (induction xs) (simp_all add: ac_simps)

lemma sint_word_of_int_small:
  assumes "0 \<le> k" and "k < 2 ^ 63"
  shows "sint (word_of_int k :: 64 word) = k"
proof -
  have "sint (word_of_int k :: 64 word) = signed_take_bit 63 k"
    by (simp add: sint_sbintrunc')
  also from assms have "\<dots> = k"
    by (intro signed_take_bit_int_eq_self) simp_all
  finally show ?thesis .
qed

lemma missing_stmts_sint:
  assumes nonneg: "\<forall>b\<in>set bs. 0 \<le> sint (NumStmt b)"
    and bound: "(\<Sum>b\<leftarrow>bs. sint (NumStmt b)) < 2 ^ 63"
  shows "sint (sum_list (map NumStmt bs) - sum_list (map NumStmt (filter P bs)))
           = (\<Sum>b\<leftarrow>filter (\<lambda>b. \<not> P b) bs. sint (NumStmt b))"
proof -
  let ?rest = "filter (\<lambda>b. \<not> P b) bs"
  have "sum_list (map NumStmt bs) - sum_list (map NumStmt (filter P bs))
          = sum_list (map NumStmt ?rest)"
    by (simp add: sum_list_filter_split [of NumStmt bs P])
  also have "\<dots> = word_of_int (\<Sum>b\<leftarrow>?rest. sint (NumStmt b))"
    by (simp add: sum_list_word_of_int [of "map NumStmt ?rest"] comp_def)
  finally have eq: "sum_list (map NumStmt bs) - sum_list (map NumStmt (filter P bs))
          = word_of_int (\<Sum>b\<leftarrow>?rest. sint (NumStmt b))" .
  from nonneg have ge: "0 \<le> (\<Sum>b\<leftarrow>?rest. sint (NumStmt b))"
    by (intro sum_list_nonneg) auto
  from nonneg have "0 \<le> (\<Sum>b\<leftarrow>filter P bs. sint (NumStmt b))"
    by (intro sum_list_nonneg) auto
  with sum_list_filter_split [of "\<lambda>b. sint (NumStmt b)" bs P] bound
  have "(\<Sum>b\<leftarrow>?rest. sint (NumStmt b)) < 2 ^ 63"
    by simp
  with ge show ?thesis
    unfolding eq by (rule sint_word_of_int_small)
qed

lemma missing_blocks_sint:
  assumes "length bs < 2 ^ 63"
  shows "sint (word_of_nat (length bs) - word_of_nat (length (filter P bs)) :: 64 word)
           = int (length (filter (\<lambda>b. \<not> P b) bs))"
proof -
  let ?rest = "filter (\<lambda>b. \<not> P b) bs"
  have "length bs = length (filter P bs) + length ?rest"
    by (simp add: sum_length_filter_compl)
  then have "(word_of_nat (length bs) - word_of_nat (length (filter P bs)) :: 64 word)
          = word_of_nat (length ?rest)"
    by simp
  also have "\<dots> = word_of_int (int (length ?rest))"
    by simp
  finally have eq: "(word_of_nat (length bs) - word_of_nat (length (filter P bs)) :: 64 word)
          = word_of_int (int (length ?rest))" .
  have "length ?rest \<le> length bs" by simp
  from this assms have "length ?rest < 2 ^ 63"
    by (rule le_less_trans)
  then have "int (length ?rest) < int (2 ^ 63)"
    by (simp only: of_nat_less_iff)
  then have "int (length ?rest) < 2 ^ 63"
    by simp
  then show ?thesis
    unfolding eq by (intro sint_word_of_int_small) simp_all
qed

text \<open>
  Claim C8 says that MissingBlocks and MissingStmts are never negative. The counters are
  Go \<open>int\<close>s and nothing checks their range: two blocks of \<open>2^62\<close> statements
  each, never executed, add up to \<open>-2^63\<close> statements, all of them missing.
\<close>

theorem missing_stmts_negative:
  "0 <=s NumStmt (block_of 4611686018427387904 0)
   \<and> MissingStmts (results (fold add
        [block_of 4611686018427387904 0, block_of 4611686018427387904 0]
        (new_accumulator ''a.go''))) = - 9223372036854775808
   \<and> MissingStmts (results (fold add
        [block_of 4611686018427387904 0, block_of 4611686018427387904 0]
        (new_accumulator ''a.go''))) <s 0"
  by (simp add: results_def add_def new_accumulator_def block_of_def word_sle_eq word_sless_alt)

text \<open>
  Claim C8, as the code has it. \<open>add\<close> increments the block count by 1 and the
  statement total by the statement count of the block, and the two covered counts by
  the same amounts only when the execution count of the block is positive. For the
  summary of an accumulator that started empty and was given the blocks \<open>bs\<close>,
  MissingBlocks is Blocks minus the number of covered blocks and MissingStmts is Stmts
  minus the statements of the covered blocks, in the wrap-around arithmetic of \<open>int\<close>.
  MissingBlocks is not negative when there are fewer than \<open>2^63\<close> blocks (as in every
  Go slice); MissingStmts is not negative when no block has a negative statement count
  and the statement counts add up to less than \<open>2^63\<close>.
\<close>

theorem accumulator_summary:
  "blocks (add block a) = blocks a + 1
   \<and> stmts (add block a) = stmts a + NumStmt block
   \<and> coveredBlocks (add block a) = (if 0 <s Count block then coveredBlocks a + 1 else coveredBlocks a)
   \<and> coveredStmts (add block a)
       = (if 0 <s Count block then coveredStmts a + NumStmt block else coveredStmts a)
   \<and> MissingBlocks (results (fold add bs (new_accumulator n)))
       = Summary.Blocks (results (fold add bs (new_accumulator n)))
         - word_of_nat (length (filter (\<lambda>b. 0 <s Count b) bs))
   \<and> MissingStmts (results (fold add bs (new_accumulator n)))
       = Stmts (results (fold add bs (new_accumulator n)))
         - sum_list (map NumStmt (filter (\<lambda>b. 0 <s Count b) bs))
   \<and> (length bs < 2 ^ 63 \<longrightarrow>
        0 <=s MissingBlocks (results (fold add bs (new_accumulator n))))
   \<and> ((\<forall>b\<in>set bs. 0 <=s NumStmt b) \<and> (\<Sum>b\<leftarrow>bs. sint (NumStmt b)) < 2 ^ 63 \<longrightarrow>
        0 <=s MissingStmts (results (fold add bs (new_accumulator n))))"
proof -
  let ?a = "fold add bs (new_accumulator n)"
  let ?cov = "\<lambda>b. 0 <s Count b"
  have mb: "MissingBlocks (results ?a) = word_of_nat (length bs) - word_of_nat (length (filter ?cov bs))"
    by (simp add: results_def fold_add_fields new_accumulator_def)
  have ms: "MissingStmts (results ?a)
      = sum_list (map NumStmt bs) - sum_list (map NumStmt (filter ?cov bs))"
    by (simp add: results_def fold_add_fields new_accumulator_def)
  have b: "Summary.Blocks (results ?a) = word_of_nat (length bs)"
    by (simp add: results_def fold_add_fields new_accumulator_def)
  have s: "Stmts (results ?a) = sum_list (map NumStmt bs)"
    by (simp add: results_def fold_add_fields new_accumulator_def)
  have nb: "0 <=s MissingBlocks (results ?a)" if "length bs < 2 ^ 63"
    unfolding mb word_sle_eq using missing_blocks_sint [OF that, of ?cov] by simp
  have ns: "0 <=s MissingStmts (results ?a)"
    if "(\<forall>b\<in>set bs. 0 <=s NumStmt b) \<and> (\<Sum>b\<leftarrow>bs. sint (NumStmt b)) < 2 ^ 63"
  proof -
    from that have nonneg: "\<forall>b\<in>set bs. 0 \<le> sint (NumStmt b)"
      by (simp add: word_sle_eq)
    from that have bound: "(\<Sum>b\<leftarrow>bs. sint (NumStmt b)) < 2 ^ 63" by simp
    have "0 \<le> (\<Sum>b\<leftarrow>filter (\<lambda>b. \<not> ?cov b) bs. sint (NumStmt b))"
      using nonneg by (intro sum_list_nonneg) auto
    then show ?thesis
      unfolding ms word_sle_eq missing_stmts_sint [OF nonneg bound, of ?cov] by simp
  qed
  show ?thesis
    using nb ns by (simp add: add_fields mb ms b s)
qed

text \<open>
  For C8: the two blocks of \<open>a.go\<close>; one block of two and two statements of five
  are missing.
\<close>

theorem accumulator_summary_witness:
  "blocks (add (block_of 3 1) (new_accumulator ''a.go'')) = 1
   \<and> stmts (add (block_of 3 1) (new_accumulator ''a.go'')) = 3
   \<and> coveredBlocks (add (block_of 3 1) (new_accumulator ''a.go'')) = 1
   \<and> coveredStmts (add (block_of 3 1) (new_accumulator ''a.go'')) = 3
   \<and> MissingBlocks (results (fold add [block_of 3 1, block_of 2 0] (new_accumulator ''a.go''))) = 2 - 1
   \<and> MissingStmts (results (fold add [block_of 3 1, block_of 2 0] (new_accumulator ''a.go''))) = 5 - 3
   \<and> 0 <=s MissingBlocks (results (fold add [block_of 3 1, block_of 2 0] (new_accumulator ''a.go'')))
   \<and> 0 <=s MissingStmts (results (fold add [block_of 3 1, block_of 2 0] (new_accumulator ''a.go'')))"
  using accumulator_summary [of "block_of 3 1" "new_accumulator ''a.go''"
      "[block_of 3 1, block_of 2 0]" "''a.go''"]
  by (simp add: block_of_def new_accumulator_def results_def add_def Let_def word_sle_eq
      word_sless_alt)

section \<open>The report\<close>

lemma mset_range_order: "mset (range_order seed xs) = mset xs"
proof (induction seed xs rule: range_order.induct)
  case (3 n seed x xs)
  let ?l = "x # xs"
  let ?i = "n mod length ?l"
  have i: "?i < length ?l" by simp
  then have "?l = take ?i ?l @ ?l ! ?i # drop (Suc ?i) ?l"
    by (rule id_take_nth_drop)
  then have "mset ?l = add_mset (?l ! ?i) (mset (take ?i ?l @ drop (Suc ?i) ?l))"
    by (metis mset.simps(2) mset_append union_mset_add_mset_right)
  with 3 show ?case by (simp add: Let_def)
qed simp_all

text \<open>Every order of the entries is one that \<open>range_order\<close> can produce.\<close>

lemma range_order_complete:
  assumes "mset ys = mset xs"
  shows "\<exists>seed. range_order seed xs = ys"
  using assms
proof (induction ys arbitrary: xs)
  case Nil
  then show ?case by simp
next
  case (Cons y ys)
  then have "y \<in> set xs" by (metis list.set_intros(1) mset_eq_setD)
  then obtain i where i: "i < length xs" and y: "xs ! i = y"
    by (auto simp: in_set_conv_nth)
  let ?rest = "take i xs @ drop (Suc i) xs"
  from i have "xs = take i xs @ xs ! i # drop (Suc i) xs"
    by (rule id_take_nth_drop)
  then have "mset xs = add_mset y (mset ?rest)"
    using y by (metis mset.simps(2) mset_append union_mset_add_mset_right)
  with Cons.prems have "mset ys = mset ?rest" by simp
  then obtain seed where seed: "range_order seed ?rest = ys"
    using Cons.IH by blast
  from i obtain x xs' where xs: "xs = x # xs'" by (cases xs) auto
  from i have "i mod length xs = i" by simp
  with seed y have "range_order (i # seed) xs = y # ys"
    unfolding xs by (simp add: Let_def)
  then show ?case by blast
qed

lemma sum_list_mset_cong:
  fixes f :: "'a \<Rightarrow> 'b::comm_monoid_add"
  assumes "mset xs = mset ys"
  shows "sum_list (map f xs) = sum_list (map f ys)"
proof -
  have "sum_list (map f xs) = sum_mset (image_mset f (mset xs))"
    by (simp flip: sum_mset_sum_list)
  also have "\<dots> = sum_mset (image_mset f (mset ys))"
    by (simp only: assms)
  also have "\<dots> = sum_list (map f ys)"
    by (simp flip: sum_mset_sum_list)
  finally show ?thesis .
qed

text \<open>What a successful \<open>makeReport\<close> returns.\<close>

lemma makeReport_None:
  assumes "makeReport seed t files sortBy order = (r, None)"
  shows "Total r = results t"
    and "mset (Files r) = mset (map (\<lambda>(k, fileCover). results fileCover) files)"
proof -
  let ?reports = "map (\<lambda>(k, fileCover). results fileCover) (range_order seed files)"
  have ord: "order = ''asc'' \<or> order = ''desc''"
  proof (rule ccontr)
    assume "\<not> ?thesis"
    then have "makeReport seed t files sortBy order
        = (Report_zero, Some ''Order must be either asc or desc'')"
      by (intro makeReport_bad_order) simp_all
    with assms show False by simp
  qed
  have key: "sortBy \<in> set [''filename'', ''block'', ''stmt'', ''missing-blocks'', ''missing-stmts'']"
  proof (rule ccontr)
    assume "\<not> ?thesis"
    with ord have "makeReport seed t files sortBy order
        = (Report_zero,
           Some ''Invalid sort colum, must be one of filename, block, stmt, missing-blocks or missing-stmts'')"
      by (intro makeReport_bad_key)
    with assms show False by simp
  qed
  from key obtain lt where lt: "mode_lt sortBy = Some lt"
    by (rule mode_lt_cases)
  from ord obtain cmp where srt: "sortResults ?reports sortBy order = (sort_by cmp ?reports, None)"
    using sortResults_asc [OF lt] sortResults_desc [OF lt] by blast
  with assms have r: "r = \<lparr>Total = results t, Files = sort_by cmp ?reports\<rparr>"
    by (simp add: makeReport_def)
  show "Total r = results t" by (simp add: r)
  show "mset (Files r) = mset (map (\<lambda>(k, fileCover). results fileCover) files)"
    by (simp add: r mset_sort_by mset_range_order)
qed

text \<open>
  The invariant of the loop over the profiles: a counter of the total is the sum of
  the same counter over the accumulators of the files.
\<close>

lemma sum_list_update:
  fixes g :: "'v \<Rightarrow> 'b::ab_group_add"
  shows "sum_list (map (\<lambda>(k, a). g a) (AList.update k v al))
           = sum_list (map (\<lambda>(k, a). g a) al)
             - (case map_of al k of None \<Rightarrow> 0 | Some a \<Rightarrow> g a) + g v"
  by (induction al) (auto simp: algebra_simps)

lemma add_profile_sum:
  fixes f :: "accumulator \<Rightarrow> go_int"
  assumes step: "\<And>bs a. f (fold add bs a) = f a + d bs"
    and zero: "\<And>n. f (new_accumulator n) = 0"
    and inv: "f (fst st) = sum_list (map (\<lambda>(k, a). f a) (snd st))"
  shows "f (fst (add_profile rootDir exclusions profile st))
           = sum_list (map (\<lambda>(k, a). f a) (snd (add_profile rootDir exclusions profile st)))"
proof -
  obtain t files where st: "st = (t, files)" by (cases st)
  show ?thesis
    using inv unfolding st add_profile_eq
    by (simp add: sum_list_update step zero split: option.splits)
qed

lemma fold_add_profile_sum:
  fixes f :: "accumulator \<Rightarrow> go_int"
  assumes step: "\<And>bs a. f (fold add bs a) = f a + d bs"
    and zero: "\<And>n. f (new_accumulator n) = 0"
    and inv: "f (fst st) = sum_list (map (\<lambda>(k, a). f a) (snd st))"
  shows "f (fst (fold (add_profile rootDir exclusions) profiles st))
           = sum_list (map (\<lambda>(k, a). f a) (snd (fold (add_profile rootDir exclusions) profiles st)))"
  using inv
proof (induction profiles arbitrary: st)
  case Nil
  then show ?case by simp
next
  case (Cons p ps)
  from step zero Cons.prems
  have "f (fst (add_profile rootDir exclusions p st))
          = sum_list (map (\<lambda>(k, a). f a) (snd (add_profile rootDir exclusions p st)))"
    by (rule add_profile_sum)
  then show ?case by (simp add: Cons.IH)
qed

lemma totals_are_sums:
  fixes f :: "accumulator \<Rightarrow> go_int"
  assumes step: "\<And>bs a. f (fold add bs a) = f a + d bs"
    and zero: "\<And>n. f (new_accumulator n) = 0"
  shows "f (fst (fold (add_profile rootDir exclusions) profiles (new_accumulator ''Total'', [])))
           = sum_list (map (\<lambda>(k, a). f a)
               (snd (fold (add_profile rootDir exclusions) profiles (new_accumulator ''Total'', []))))"
  using step zero by (rule fold_add_profile_sum) (simp add: zero)

text \<open>
  Claim C4: in the Report of a successful call, each of Blocks, Stmts, MissingBlocks
  and MissingStmts of the Total is the sum of that field over the summaries of the
  files (sums of Go \<open>int\<close>s). The files that are excluded are in neither.
\<close>

theorem total_is_sum_of_files:
  assumes "GenerateReport seed (profiles, None) rootDir exclusions sortBy order = (r, None)"
  shows "Summary.Blocks (Total r) = sum_list (map Summary.Blocks (Files r))
       \<and> Stmts (Total r) = sum_list (map Stmts (Files r))
       \<and> MissingBlocks (Total r) = sum_list (map MissingBlocks (Files r))
       \<and> MissingStmts (Total r) = sum_list (map MissingStmts (Files r))"
proof -
  let ?st = "fold (add_profile rootDir exclusions) profiles (new_accumulator ''Total'', [])"
  let ?reports = "map (\<lambda>(k, fileCover). results fileCover) (snd ?st)"
  from assms have mk: "makeReport seed (fst ?st) (snd ?st) sortBy order = (r, None)"
    by (simp only: GenerateReport_parsed)
  then have tot: "Total r = results (fst ?st)" and files: "mset (Files r) = mset ?reports"
    by (rule makeReport_None)+
  have sums: "sum_list (map g (Files r)) = sum_list (map (\<lambda>(k, a). g (results a)) (snd ?st))"
    for g :: "Summary \<Rightarrow> go_int"
    using sum_list_mset_cong [OF files, of g] by (simp add: comp_def case_prod_unfold)
  have b: "blocks (fst ?st) = sum_list (map (\<lambda>(k, a). blocks a) (snd ?st))"
    by (rule totals_are_sums) (simp_all add: fold_add_fields new_accumulator_def)
  have s: "stmts (fst ?st) = sum_list (map (\<lambda>(k, a). stmts a) (snd ?st))"
    by (rule totals_are_sums) (simp_all add: fold_add_fields new_accumulator_def)
  have cb: "coveredBlocks (fst ?st) = sum_list (map (\<lambda>(k, a). coveredBlocks a) (snd ?st))"
    by (rule totals_are_sums) (simp_all add: fold_add_fields new_accumulator_def)
  have cs: "coveredStmts (fst ?st) = sum_list (map (\<lambda>(k, a). coveredStmts a) (snd ?st))"
    by (rule totals_are_sums) (simp_all add: fold_add_fields new_accumulator_def)
  have "Summary.Blocks (Total r) = sum_list (map Summary.Blocks (Files r))"
    unfolding tot sums by (simp add: results_def b)
  moreover have "Stmts (Total r) = sum_list (map Stmts (Files r))"
    unfolding tot sums by (simp add: results_def s)
  moreover have "MissingBlocks (Total r) = sum_list (map MissingBlocks (Files r))"
    unfolding tot sums
    by (simp add: results_def b cb case_prod_unfold sum_list_subtractf)
  moreover have "MissingStmts (Total r) = sum_list (map MissingStmts (Files r))"
    unfolding tot sums
    by (simp add: results_def s cs case_prod_unfold sum_list_subtractf)
  ultimately show ?thesis by simp
qed

lemma GenerateReport_two_files:
  "GenerateReport [] (two_files, None) [] [] ''filename'' ''asc'' = (two_files_report, None)"
  by code_simp

text \<open>
  For C4: the two files, sorted by file name; 3 = 2 + 1 blocks, 10 = 5 + 5 statements.
\<close>

theorem total_is_sum_of_files_witness:
  "GenerateReport [] (two_files, None) [] [] ''filename'' ''asc'' = (two_files_report, None)
   \<and> Summary.Blocks (Total two_files_report) = sum_list (map Summary.Blocks (Files two_files_report))
   \<and> Stmts (Total two_files_report) = sum_list (map Stmts (Files two_files_report))
   \<and> MissingBlocks (Total two_files_report) = sum_list (map MissingBlocks (Files two_files_report))
   \<and> MissingStmts (Total two_files_report) = sum_list (map MissingStmts (Files two_files_report))"
  using GenerateReport_two_files total_is_sum_of_files [OF GenerateReport_two_files]
  by (rule conjI)

lemma skip_file_Nil [simp]: "\<not> skip_file [] n"
  by (simp add: skip_file_def)

lemma add_profile_skip:
  "add_profile rootDir exclusions p st =
     (if skip_file exclusions (display_name rootDir p) then st
      else add_profile rootDir [] p st)"
  by (cases st) (simp add: add_profile_eq)

lemma fold_add_profile_filter:
  "fold (add_profile rootDir exclusions) profiles st =
     fold (add_profile rootDir [])
       (filter (\<lambda>p. \<not> skip_file exclusions (display_name rootDir p)) profiles) st"
proof (induction profiles arbitrary: st)
  case Nil
  show ?case by simp
next
  case (Cons p ps)
  show ?case
    by (simp add: Cons.IH add_profile_skip [of rootDir exclusions p st])
qed

lemma set_update_subset:
  "x \<in> set (AList.update k v al) \<Longrightarrow> x = (k, v) \<or> x \<in> set al"
  by (induction al) (auto split: if_splits)

lemma files_ok_add_profile:
  assumes "files_ok exclusions (snd st)"
  shows "files_ok exclusions (snd (add_profile rootDir exclusions p st))"
proof -
  obtain t files where st: "st = (t, files)" by (cases st)
  let ?n = "display_name rootDir p"
  show ?thesis
  proof (cases "skip_file exclusions ?n")
    case True
    with assms show ?thesis by (simp add: st add_profile_eq)
  next
    case False
    let ?a = "case map_of files ?n of Some a \<Rightarrow> a | None \<Rightarrow> new_accumulator ?n"
    have "name ?a = ?n"
    proof (cases "map_of files ?n")
      case None
      then show ?thesis by (simp add: new_accumulator_def)
    next
      case (Some a)
      then have "(?n, a) \<in> set files" by (rule map_of_SomeD)
      with assms Some show ?thesis
        by (auto simp: st files_ok_def list_all_iff)
    qed
    then have nm: "name (fold add (Profile.Blocks p) ?a) = ?n"
      by (simp add: fold_add_fields)
    have "name a = k \<and> \<not> skip_file exclusions k"
      if "(k, a) \<in> set (AList.update ?n (fold add (Profile.Blocks p) ?a) files)" for k a
      using set_update_subset [OF that] assms False nm
      by (auto simp: st files_ok_def list_all_iff)
    moreover from assms have "distinct (map fst (AList.update ?n (fold add (Profile.Blocks p) ?a) files))"
      by (simp add: st files_ok_def distinct_update)
    ultimately show ?thesis
      using False by (auto simp: st add_profile_eq files_ok_def list_all_iff)
  qed
qed

lemma files_ok_fold:
  assumes "files_ok exclusions (snd st)"
  shows "files_ok exclusions (snd (fold (add_profile rootDir exclusions) profiles st))"
  using assms
proof (induction profiles arbitrary: st)
  case Nil
  then show ?case by simp
next
  case (Cons p ps)
  from Cons.prems have "files_ok exclusions (snd (add_profile rootDir exclusions p st))"
    by (rule files_ok_add_profile)
  then show ?case by (simp add: Cons.IH)
qed

lemma files_ok_GenerateReport:
  "files_ok exclusions
     (snd (fold (add_profile rootDir exclusions) profiles (new_accumulator ''Total'', [])))"
  by (rule files_ok_fold) (simp add: files_ok_def)

lemma set_Files_makeReport:
  assumes "s \<in> set (Files (fst (makeReport seed t files sortBy order)))"
  shows "\<exists>(k, a)\<in>set files. s = results a"
proof (cases "makeReport seed t files sortBy order")
  case (Pair r e)
  show ?thesis
  proof (cases e)
    case None
    with Pair have "mset (Files r) = mset (map (\<lambda>(k, fileCover). results fileCover) files)"
      by (intro makeReport_None) simp
    then have "set (Files r) = set (map (\<lambda>(k, fileCover). results fileCover) files)"
      by (rule mset_eq_setD)
    with assms Pair show ?thesis by auto
  next
    case (Some err)
    with Pair have "r = Report_zero"
      by (auto simp: makeReport_def split: prod.splits option.splits)
    with assms Pair show ?thesis by (simp add: Report_zero_def)
  qed
qed

text \<open>
  Claim C5: no summary of the Report has a name that starts with one of the exclusion
  prefixes, and the files whose display name starts with one add nothing to the result:
  the call returns what it returns, without exclusions, on the remaining profiles
  alone, the Total included.
\<close>

theorem excluded_files_left_out:
  "(\<forall>s\<in>set (Files (fst (GenerateReport seed (profiles, None) rootDir exclusions sortBy order))).
       \<not> (\<exists>e\<in>set exclusions. HasPrefix (Name s) e))
   \<and> GenerateReport seed (profiles, None) rootDir exclusions sortBy order
       = GenerateReport seed
           (filter (\<lambda>p. \<not> (\<exists>e\<in>set exclusions. HasPrefix (display_name rootDir p) e)) profiles,
            None)
           rootDir [] sortBy order"
proof
  let ?st = "fold (add_profile rootDir exclusions) profiles (new_accumulator ''Total'', [])"
  show "\<forall>s\<in>set (Files (fst (GenerateReport seed (profiles, None) rootDir exclusions sortBy order))).
       \<not> (\<exists>e\<in>set exclusions. HasPrefix (Name s) e)"
  proof
    fix s
    assume "s \<in> set (Files (fst (GenerateReport seed (profiles, None) rootDir exclusions sortBy order)))"
    then have "s \<in> set (Files (fst (makeReport seed (fst ?st) (snd ?st) sortBy order)))"
      by (simp only: GenerateReport_parsed)
    then obtain k a where ka: "(k, a) \<in> set (snd ?st)" and s: "s = results a"
      using set_Files_makeReport by blast
    from files_ok_GenerateReport [of exclusions rootDir profiles] ka
    have "name a = k" "\<not> skip_file exclusions k"
      by (auto simp: files_ok_def list_all_iff)
    then have "\<not> skip_file exclusions (Name s)"
      by (simp add: s results_def)
    then show "\<not> (\<exists>e\<in>set exclusions. HasPrefix (Name s) e)"
      unfolding skip_file_iff .
  qed
  show "GenerateReport seed (profiles, None) rootDir exclusions sortBy order
       = GenerateReport seed
           (filter (\<lambda>p. \<not> (\<exists>e\<in>set exclusions. HasPrefix (display_name rootDir p) e)) profiles,
            None)
           rootDir [] sortBy order"
    unfolding GenerateReport_parsed
    by (simp only: fold_add_profile_filter [of rootDir exclusions profiles] skip_file_iff)
qed

text \<open>
  For C5: with the exclusion \<open>a\<close>, the two files give the report of \<open>b.go\<close>
  alone.
\<close>

theorem excluded_files_left_out_witness:
  "map Name (Files (fst (GenerateReport [] (two_files, None) [] [''a''] ''filename'' ''asc'')))
     = [''b.go'']
   \<and> GenerateReport [] (two_files, None) [] [''a''] ''filename'' ''asc''
     = GenerateReport [] ([profile_of ''b.go'' [block_of 5 5]], None) [] [] ''filename'' ''asc''"
proof -
  have f: "filter (\<lambda>p. \<not> (\<exists>e\<in>set [''a'']. HasPrefix (display_name [] p) e)) two_files
             = [profile_of ''b.go'' [block_of 5 5]]"
    by (simp add: two_files_def profile_of_def display_name_def HasPrefix_def)
  have n: "map Name (Files (fst (GenerateReport [] (two_files, None) [] [''a''] ''filename'' ''asc'')))
             = [''b.go'']"
    by code_simp
  from excluded_files_left_out [of "[]" two_files "[]" "[''a'']" "''filename''" "''asc''"]
  have "GenerateReport [] (two_files, None) [] [''a''] ''filename'' ''asc''
     = GenerateReport [] ([profile_of ''b.go'' [block_of 5 5]], None) [] [] ''filename'' ''asc''"
    unfolding f by (rule conjunct2)
  with n show ?thesis by (rule conjI)
qed

lemma sort_by_key_unique:
  fixes key :: "'a \<Rightarrow> 'k::linorder"
  assumes perm: "mset xs = mset ys" and dist: "distinct (map key xs)"
  shows "sort_by (\<lambda>a b. key a < key b) xs = sort_by (\<lambda>a b. key a < key b) ys"
    and "sort_by (\<lambda>a b. \<not> key a < key b) xs = sort_by (\<lambda>a b. \<not> key a < key b) ys"
proof -
  have uniq: "X = Y"
    if mx: "mset X = mset xs" and my: "mset Y = mset xs"
      and keys: "map key X = map key Y" for X Y
  proof -
    from mx my have "set X = set xs" "set Y = set xs"
      by (auto dest: mset_eq_setD)
    moreover from dist have "inj_on key (set xs)"
      by (simp add: distinct_map)
    ultimately have "inj_on key (set X \<union> set Y)" by simp
    with keys show ?thesis by (rule map_inj_on)
  qed
  have dm: "distinct (map key X)" if "mset X = mset xs" for X
  proof -
    from that have "mset (map key X) = mset (map key xs)" by simp
    with dist show ?thesis by (metis mset_eq_imp_distinct_iff)
  qed
  have sm: "set (map key X) = set (map key xs)" if "mset X = mset xs" for X
    using that by (metis mset_eq_setD set_map)
  let ?X = "sort_by (\<lambda>a b. key a < key b) xs" and ?Y = "sort_by (\<lambda>a b. key a < key b) ys"
  have X: "mset ?X = mset xs" and Y: "mset ?Y = mset xs"
    by (simp_all add: mset_sort_by perm)
  have "map key ?X = map key ?Y"
    by (rule sorted_distinct_set_unique)
      (simp_all add: sorted_sort_by_asc dm [OF X] dm [OF Y] sm [OF X] sm [OF Y] del: set_map)
  with X Y show "?X = ?Y" by (rule uniq)
  let ?X = "sort_by (\<lambda>a b. \<not> key a < key b) xs" and ?Y = "sort_by (\<lambda>a b. \<not> key a < key b) ys"
  have X: "mset ?X = mset xs" and Y: "mset ?Y = mset xs"
    by (simp_all add: mset_sort_by perm)
  have "rev (map key ?X) = rev (map key ?Y)"
    by (rule sorted_distinct_set_unique)
      (simp_all add: sorted_sort_by_desc dm [OF X] dm [OF Y] sm [OF X] sm [OF Y] del: set_map)
  then have "map key ?X = map key ?Y" by simp
  with X Y show "?X = ?Y" by (rule uniq)
qed

lemma makeReport_valid:
  assumes ord: "order = ''asc'' \<or> order = ''desc''"
    and key: "sortBy \<in> set [''filename'', ''block'', ''stmt'', ''missing-blocks'', ''missing-stmts'']"
  obtains cmp where
    "\<And>seed t files. makeReport seed t files sortBy order =
       (\<lparr>Total = results t,
         Files = sort_by cmp (map (\<lambda>(k, fileCover). results fileCover) (range_order seed files))\<rparr>,
        None)"
    and "sortBy = ''filename'' \<Longrightarrow>
           cmp = (\<lambda>a b. Name a < Name b) \<or> cmp = (\<lambda>a b. \<not> Name a < Name b)"
proof -
  from key obtain lt where lt: "mode_lt sortBy = Some lt"
    by (rule mode_lt_cases)
  have fl: "lt = (\<lambda>a b. Name a < Name b)" if "sortBy = ''filename''"
    using lt unfolding that mode_lt_simps by simp
  from ord show thesis
  proof
    assume o: "order = ''asc''"
    show thesis
    proof (rule that [of lt])
      show "makeReport seed t files sortBy order =
         (\<lparr>Total = results t,
           Files = sort_by lt (map (\<lambda>(k, fileCover). results fileCover) (range_order seed files))\<rparr>,
          None)" for seed t files
        by (simp add: makeReport_def o sortResults_asc [OF lt])
      show "lt = (\<lambda>a b. Name a < Name b) \<or> lt = (\<lambda>a b. \<not> Name a < Name b)"
        if "sortBy = ''filename''"
        using fl [OF that] by simp
    qed
  next
    assume o: "order = ''desc''"
    show thesis
    proof (rule that [of "\<lambda>a b. \<not> lt a b"])
      show "makeReport seed t files sortBy order =
         (\<lparr>Total = results t,
           Files = sort_by (\<lambda>a b. \<not> lt a b)
                     (map (\<lambda>(k, fileCover). results fileCover) (range_order seed files))\<rparr>,
          None)" for seed t files
        by (simp add: makeReport_def o sortResults_desc [OF lt])
      show "(\<lambda>a b. \<not> lt a b) = (\<lambda>a b. Name a < Name b)
              \<or> (\<lambda>a b. \<not> lt a b) = (\<lambda>a b. \<not> Name a < Name b)"
        if "sortBy = ''filename''"
        using fl [OF that] by simp
    qed
  qed
qed

lemma same_report:
  fixes A B :: "Report \<times> error option"
  assumes "A = B"
  shows "snd A = snd B \<and> Total (fst A) = Total (fst B)
    \<and> mset (Files (fst A)) = mset (Files (fst B)) \<and> (P \<longrightarrow> A = B)"
  using assms by simp

lemma makeReport_seed:
  assumes ok: "files_ok exclusions files"
  shows "snd (makeReport seed1 t files sortBy order) = snd (makeReport seed2 t files sortBy order)
    \<and> Total (fst (makeReport seed1 t files sortBy order))
        = Total (fst (makeReport seed2 t files sortBy order))
    \<and> mset (Files (fst (makeReport seed1 t files sortBy order)))
        = mset (Files (fst (makeReport seed2 t files sortBy order)))
    \<and> (sortBy = ''filename'' \<longrightarrow>
        makeReport seed1 t files sortBy order = makeReport seed2 t files sortBy order)"
proof (cases "order = ''asc'' \<or> order = ''desc''")
  case False
  then have "makeReport seed t files sortBy order
        = (Report_zero, Some ''Order must be either asc or desc'')" for seed
    by (intro makeReport_bad_order) simp_all
  then have "makeReport seed1 t files sortBy order = makeReport seed2 t files sortBy order"
    by simp
  then show ?thesis by (rule same_report)
next
  case ord: True
  show ?thesis
  proof (cases "sortBy \<in> set [''filename'', ''block'', ''stmt'', ''missing-blocks'', ''missing-stmts'']")
    case False
    with ord have "makeReport seed t files sortBy order
        = (Report_zero,
           Some ''Invalid sort colum, must be one of filename, block, stmt, missing-blocks or missing-stmts'')"
      for seed
      by (intro makeReport_bad_key)
    then have "makeReport seed1 t files sortBy order = makeReport seed2 t files sortBy order"
      by simp
    then show ?thesis by (rule same_report)
  next
    case key: True
    let ?rs = "\<lambda>seed. map (\<lambda>(k, fileCover). results fileCover) (range_order seed files)"
    from ord key show ?thesis
    proof (rule makeReport_valid)
      fix cmp
      assume mk: "\<And>seed t files. makeReport seed t files sortBy order =
         (\<lparr>Total = results t,
           Files = sort_by cmp (map (\<lambda>(k, fileCover). results fileCover) (range_order seed files))\<rparr>,
          None)"
        and fl: "sortBy = ''filename'' \<Longrightarrow>
           cmp = (\<lambda>a b. Name a < Name b) \<or> cmp = (\<lambda>a b. \<not> Name a < Name b)"
      have perm: "mset (?rs seed1) = mset (?rs seed2)"
        by (simp add: mset_range_order)
      have nm: "map Name (map (\<lambda>(k, fileCover). results fileCover) files) = map fst files"
        using ok by (auto simp: files_ok_def list_all_iff results_def)
      from ok have "distinct (map fst files)"
        by (simp add: files_ok_def)
      then have "distinct (map Name (map (\<lambda>(k, fileCover). results fileCover) files))"
        by (simp only: nm)
      moreover have "mset (map Name (?rs seed1))
          = mset (map Name (map (\<lambda>(k, fileCover). results fileCover) files))"
        by (simp add: mset_range_order)
      ultimately have dist: "distinct (map Name (?rs seed1))"
        by (metis mset_eq_imp_distinct_iff)
      have srt: "sort_by cmp (?rs seed1) = sort_by cmp (?rs seed2)" if "sortBy = ''filename''"
        using fl [OF that] sort_by_key_unique [OF perm dist] by auto
      have same: "makeReport seed1 t files sortBy order = makeReport seed2 t files sortBy order"
        if f: "sortBy = ''filename''"
        unfolding mk srt [OF f] by (rule refl)
      have "snd (makeReport seed1 t files sortBy order) = snd (makeReport seed2 t files sortBy order)"
        by (simp add: mk)
      moreover have "Total (fst (makeReport seed1 t files sortBy order))
          = Total (fst (makeReport seed2 t files sortBy order))"
        by (simp add: mk)
      moreover have "mset (Files (fst (makeReport seed1 t files sortBy order)))
          = mset (Files (fst (makeReport seed2 t files sortBy order)))"
        by (simp add: mk mset_sort_by mset_range_order)
      ultimately show ?thesis
        using same by (intro conjI impI)
    qed
  qed
qed

lemma float64_rank_inj: "float64_rank x = float64_rank y \<Longrightarrow> x = y"
  by (cases x; cases y) simp_all

lemma float64_less_rank:
  "x \<noteq> NaN \<Longrightarrow> y \<noteq> NaN \<Longrightarrow> float64_less x y \<longleftrightarrow> float64_rank x < float64_rank y"
  by (cases x; cases y) simp_all

lemma bubble_cong:
  assumes "\<forall>y\<in>set rs. lt x y = lt' x y"
  shows "bubble lt x rs = bubble lt' x rs"
  using assms by (induction rs) auto

lemma fold_bubble_cong:
  assumes "\<forall>a\<in>set xs \<union> set acc. \<forall>b\<in>set xs \<union> set acc. lt a b = lt' a b"
  shows "fold (bubble lt) xs acc = fold (bubble lt') xs acc"
  using assms
proof (induction xs arbitrary: acc)
  case Nil
  show ?case by simp
next
  case (Cons x xs)
  from Cons.prems have "bubble lt x acc = bubble lt' x acc"
    by (intro bubble_cong) simp
  moreover from Cons.prems
  have "fold (bubble lt) xs (bubble lt' x acc) = fold (bubble lt') xs (bubble lt' x acc)"
    by (intro Cons.IH) (simp add: set_bubble)
  ultimately show ?case by simp
qed

lemma sort_by_cong:
  assumes "\<forall>a\<in>set xs. \<forall>b\<in>set xs. lt a b = lt' a b"
  shows "sort_by lt xs = sort_by lt' xs"
  using fold_bubble_cong [of xs "[]" lt lt'] assms by (simp add: sort_by_def)

lemma sort_by_keys_unique:
  fixes key :: "'a \<Rightarrow> 'k::linorder"
  assumes perm: "mset xs = mset ys"
  shows "map key (sort_by (\<lambda>a b. key a < key b) xs) = map key (sort_by (\<lambda>a b. key a < key b) ys)"
    and "map key (sort_by (\<lambda>a b. \<not> key a < key b) xs)
           = map key (sort_by (\<lambda>a b. \<not> key a < key b) ys)"
proof -
  have asc: "map key (sort_by (\<lambda>a b. key a < key b) zs) = sort (map key zs)" for zs
    by (rule properties_for_sort [symmetric]) (simp_all add: mset_sort_by sorted_sort_by_asc)
  have "rev (map key (sort_by (\<lambda>a b. \<not> key a < key b) zs)) = sort (map key zs)" for zs
    by (rule properties_for_sort [symmetric]) (simp_all add: mset_sort_by sorted_sort_by_desc)
  then have "rev (rev (map key (sort_by (\<lambda>a b. \<not> key a < key b) zs))) = rev (sort (map key zs))"
    for zs
    by (simp only:)
  then have desc: "map key (sort_by (\<lambda>a b. \<not> key a < key b) zs) = rev (sort (map key zs))" for zs
    by (simp only: rev_rev_ident)
  from perm have "mset (map key xs) = mset (map key ys)" by simp
  then have "sort (map key xs) = sort (map key ys)"
    by (intro properties_for_sort) simp_all
  then show "map key (sort_by (\<lambda>a b. key a < key b) xs) = map key (sort_by (\<lambda>a b. key a < key b) ys)"
    and "map key (sort_by (\<lambda>a b. \<not> key a < key b) xs)
           = map key (sort_by (\<lambda>a b. \<not> key a < key b) ys)"
    by (simp_all add: asc desc)
qed

text \<open>The same for a comparison that is the order of a key on the elements to sort.\<close>

lemma sort_by_keys_unique_on:
  fixes key :: "'a \<Rightarrow> 'k::linorder"
  assumes perm: "mset xs = mset ys"
    and lt: "\<forall>a\<in>set xs. \<forall>b\<in>set xs. lt a b \<longleftrightarrow> key a < key b"
    and cmp: "cmp = lt \<or> cmp = (\<lambda>a b. \<not> lt a b)"
  shows "map key (sort_by cmp xs) = map key (sort_by cmp ys)"
proof -
  from perm have set: "set ys = set xs" by (rule mset_eq_setD [symmetric])
  from cmp show ?thesis
  proof
    assume c: "cmp = lt"
    have "sort_by lt zs = sort_by (\<lambda>a b. key a < key b) zs" if "set zs = set xs" for zs
      by (rule sort_by_cong) (use lt that in simp)
    with set show ?thesis
      by (simp add: c sort_by_keys_unique(1) [OF perm])
  next
    assume c: "cmp = (\<lambda>a b. \<not> lt a b)"
    have "sort_by (\<lambda>a b. \<not> lt a b) zs = sort_by (\<lambda>a b. \<not> key a < key b) zs"
      if "set zs = set xs" for zs
      by (rule sort_by_cong) (use lt that in simp)
    with set show ?thesis
      by (simp add: c sort_by_keys_unique(2) [OF perm])
  qed
qed

lemma list_all2_same_field:
  "map f xs = map f ys \<Longrightarrow> list_all2 (\<lambda>a b. f b = f a) xs ys"
proof (induction xs arbitrary: ys)
  case Nil
  then show ?case by simp
next
  case (Cons x xs)
  then show ?case by (cases ys) auto
qed

lemma map_inj_key:
  assumes inj: "\<And>x y. g x = g y \<Longrightarrow> x = y"
    and eq: "map (\<lambda>s. g (f s)) xs = map (\<lambda>s. g (f s)) ys"
  shows "map f xs = map f ys"
  using eq
proof (induction xs arbitrary: ys)
  case Nil
  then show ?case by simp
next
  case (Cons x xs)
  from Cons.prems obtain y ys' where ys: "ys = y # ys'"
    by (cases ys) simp_all
  from Cons.prems have hd: "g (f x) = g (f y)"
    and tl: "map (\<lambda>s. g (f s)) xs = map (\<lambda>s. g (f s)) ys'"
    by (simp_all add: ys)
  from hd have "f x = f y" by (rule inj)
  moreover from tl have "map f xs = map f ys'" by (rule Cons.IH)
  ultimately show ?case by (simp add: ys)
qed

lemma makeReport_valid_lt:
  assumes ord: "order = ''asc'' \<or> order = ''desc''"
    and lt: "mode_lt sortBy = Some lt"
  obtains cmp where
    "\<And>seed t files. makeReport seed t files sortBy order =
       (\<lparr>Total = results t,
         Files = sort_by cmp (map (\<lambda>(k, fileCover). results fileCover) (range_order seed files))\<rparr>,
        None)"
    and "cmp = lt \<or> cmp = (\<lambda>a b. \<not> lt a b)"
  using ord
proof
  assume o: "order = ''asc''"
  show thesis
    by (rule that [of lt]) (simp_all add: makeReport_def o sortResults_asc [OF lt])
next
  assume o: "order = ''desc''"
  show thesis
    by (rule that [of "\<lambda>a b. \<not> lt a b"]) (simp_all add: makeReport_def o sortResults_desc [OF lt])
qed

text \<open>
  With a key other than \<open>stmt\<close>, the keys of the summaries follow each other in the
  same way whatever the order in which the map is visited.
\<close>

lemma makeReport_seed_keys:
  assumes ne: "sortBy \<noteq> ''stmt''"
    and nan: "sortBy = ''block'' \<Longrightarrow>
      \<forall>s\<in>set (Files (fst (makeReport seed1 t files sortBy order))). BlockCoverage s \<noteq> NaN"
  shows "list_all2 (same_key sortBy)
           (Files (fst (makeReport seed1 t files sortBy order)))
           (Files (fst (makeReport seed2 t files sortBy order)))"
proof (cases "order = ''asc'' \<or> order = ''desc''")
  case False
  then have "makeReport seed t files sortBy order
        = (Report_zero, Some ''Order must be either asc or desc'')" for seed
    by (intro makeReport_bad_order) simp_all
  then show ?thesis by (simp add: Report_zero_def)
next
  case ord: True
  let ?rs = "\<lambda>seed. map (\<lambda>(k, fileCover). results fileCover) (range_order seed files)"
  have perm: "mset (?rs seed1) = mset (?rs seed2)"
    by (simp add: mset_range_order)
  have main: ?thesis
    if lt: "mode_lt sortBy = Some lt"
      and sk: "\<And>a b. same_key sortBy a b \<longleftrightarrow> f b = f a"
      and inj: "\<And>x y. g x = g y \<Longrightarrow> x = y"
      and key: "(\<forall>s\<in>set (Files (fst (makeReport seed1 t files sortBy order))). ok s) \<Longrightarrow>
          \<forall>a\<in>set (?rs seed1). \<forall>b\<in>set (?rs seed1). lt a b \<longleftrightarrow> g (f a) < g (f b)"
      and oks: "\<forall>s\<in>set (Files (fst (makeReport seed1 t files sortBy order))). ok s"
    for lt :: "Summary \<Rightarrow> Summary \<Rightarrow> bool" and f :: "Summary \<Rightarrow> 'f"
      and g :: "'f \<Rightarrow> 'k::linorder" and ok
    using ord lt
  proof (rule makeReport_valid_lt)
    fix cmp
    assume mk: "\<And>seed t files. makeReport seed t files sortBy order =
         (\<lparr>Total = results t,
           Files = sort_by cmp (map (\<lambda>(k, fileCover). results fileCover) (range_order seed files))\<rparr>,
          None)"
      and cmp: "cmp = lt \<or> cmp = (\<lambda>a b. \<not> lt a b)"
    from key [OF oks]
    have "map (\<lambda>s. g (f s)) (sort_by cmp (?rs seed1)) = map (\<lambda>s. g (f s)) (sort_by cmp (?rs seed2))"
      using perm cmp by (intro sort_by_keys_unique_on [where lt = lt])
    with inj have "map f (sort_by cmp (?rs seed1)) = map f (sort_by cmp (?rs seed2))"
      by (rule map_inj_key)
    then have "list_all2 (\<lambda>a b. f b = f a) (sort_by cmp (?rs seed1)) (sort_by cmp (?rs seed2))"
      by (rule list_all2_same_field)
    moreover have "same_key sortBy = (\<lambda>a b. f b = f a)"
      by (intro ext) (rule sk)
    ultimately show ?thesis
      by (simp add: mk)
  qed
  show ?thesis
  proof (cases "sortBy \<in> set [''filename'', ''block'', ''stmt'', ''missing-blocks'', ''missing-stmts'']")
    case False
    with ord have "makeReport seed t files sortBy order
        = (Report_zero,
           Some ''Invalid sort colum, must be one of filename, block, stmt, missing-blocks or missing-stmts'')"
      for seed
      by (intro makeReport_bad_key)
    then show ?thesis by (simp add: Report_zero_def)
  next
    case True
    then have "sortBy = ''filename'' \<or> sortBy = ''block'' \<or> sortBy = ''stmt''
      \<or> sortBy = ''missing-blocks'' \<or> sortBy = ''missing-stmts''"
      by (simp only: set_simps insert_iff empty_iff simp_thms)
    with ne consider "sortBy = ''filename''" | "sortBy = ''block''"
      | "sortBy = ''missing-blocks''" | "sortBy = ''missing-stmts''"
      by (elim disjE) simp_all
    then show ?thesis
    proof cases
      case 1
      show ?thesis
      proof (rule main [of "\<lambda>a b. Name a < Name b" Name "\<lambda>x. x" "\<lambda>s. True"])
        show "mode_lt sortBy = Some (\<lambda>a b. Name a < Name b)"
          unfolding 1 by (rule mode_lt_simps)
        show "same_key sortBy a b \<longleftrightarrow> Name b = Name a" for a b
          unfolding 1 by (rule same_key_simps)
      qed simp_all
    next
      case 2
      have set: "set (Files (fst (makeReport seed1 t files sortBy order))) = set (?rs seed1)"
        if "mode_lt sortBy = Some lt" for lt
        using ord that
      proof (rule makeReport_valid_lt)
        fix cmp
        assume "\<And>seed t files. makeReport seed t files sortBy order =
         (\<lparr>Total = results t,
           Files = sort_by cmp (map (\<lambda>(k, fileCover). results fileCover) (range_order seed files))\<rparr>,
          None)"
        then have "mset (Files (fst (makeReport seed1 t files sortBy order))) = mset (?rs seed1)"
          by (simp add: mset_sort_by)
        then show ?thesis by (rule mset_eq_setD)
      qed
      show ?thesis
      proof (rule main [of "\<lambda>a b. float64_less (BlockCoverage a) (BlockCoverage b)"
            BlockCoverage float64_rank "\<lambda>s. BlockCoverage s \<noteq> NaN"])
        show "mode_lt sortBy = Some (\<lambda>a b. float64_less (BlockCoverage a) (BlockCoverage b))"
          unfolding 2 by (rule mode_lt_simps)
        show "same_key sortBy a b \<longleftrightarrow> BlockCoverage b = BlockCoverage a" for a b
          unfolding 2 by (rule same_key_simps)
        show "x = y" if "float64_rank x = float64_rank y" for x y
          using that by (rule float64_rank_inj)
        show "\<forall>s\<in>set (Files (fst (makeReport seed1 t files sortBy order))). BlockCoverage s \<noteq> NaN"
          using 2 by (rule nan)
        then show "\<forall>a\<in>set (?rs seed1). \<forall>b\<in>set (?rs seed1).
            float64_less (BlockCoverage a) (BlockCoverage b)
              \<longleftrightarrow> float64_rank (BlockCoverage a) < float64_rank (BlockCoverage b)"
          unfolding set [OF mode_lt_simps(2) [folded 2]]
          by (simp add: float64_less_rank)
      qed
    next
      case 3
      show ?thesis
      proof (rule main [of "\<lambda>a b. MissingBlocks a <s MissingBlocks b" MissingBlocks sint "\<lambda>s. True"])
        show "mode_lt sortBy = Some (\<lambda>a b. MissingBlocks a <s MissingBlocks b)"
          unfolding 3 by (rule mode_lt_simps)
        show "same_key sortBy a b \<longleftrightarrow> MissingBlocks b = MissingBlocks a" for a b
          unfolding 3 by (rule same_key_simps)
        show "x = y" if "sint x = sint y" for x y :: go_int
          using that by (rule signed_word_eqI)
        show "\<forall>a\<in>set (?rs seed1). \<forall>b\<in>set (?rs seed1).
            MissingBlocks a <s MissingBlocks b \<longleftrightarrow> sint (MissingBlocks a) < sint (MissingBlocks b)"
          by (simp add: word_sless_alt)
      qed simp
    next
      case 4
      show ?thesis
      proof (rule main [of "\<lambda>a b. MissingStmts a <s MissingStmts b" MissingStmts sint "\<lambda>s. True"])
        show "mode_lt sortBy = Some (\<lambda>a b. MissingStmts a <s MissingStmts b)"
          unfolding 4 by (rule mode_lt_simps)
        show "same_key sortBy a b \<longleftrightarrow> MissingStmts b = MissingStmts a" for a b
          unfolding 4 by (rule same_key_simps)
        show "x = y" if "sint x = sint y" for x y :: go_int
          using that by (rule signed_word_eqI)
        show "\<forall>a\<in>set (?rs seed1). \<forall>b\<in>set (?rs seed1).
            MissingStmts a <s MissingStmts b \<longleftrightarrow> sint (MissingStmts a) < sint (MissingStmts b)"
          by (simp add: word_sless_alt)
      qed simp
    qed
  qed
qed

lemma same_report_no_files:
  fixes A B :: "Report \<times> error option"
  assumes "A = B" and "Files (fst A) = []"
  shows "snd A = snd B \<and> Total (fst A) = Total (fst B)
    \<and> mset (Files (fst A)) = mset (Files (fst B)) \<and> (P \<longrightarrow> A = B)
    \<and> (Q \<longrightarrow> list_all2 R (Files (fst A)) (Files (fst B)))"
  using assms by simp


text \<open>
  Claim C7 says that two calls with the same inputs return the files in the same
  order. The summaries are collected by a \<open>range\<close> over the map of the files, whose
  order the runtime picks at each call, and the sort does not separate files with
  equal keys: two files with the same block coverage, sorted by \<open>block\<close>, come out
  in the order in which the map was visited.
\<close>

theorem files_order_follows_map_order:
  "map Name (Files (fst (GenerateReport [0] (tied_files, None) [] [] ''block'' ''asc'')))
     = [''a.go'', ''b.go'']
   \<and> map Name (Files (fst (GenerateReport [1] (tied_files, None) [] [] ''block'' ''asc'')))
     = [''b.go'', ''a.go'']"
  by code_simp

text \<open>
  The proviso on NaN below is needed: with the file without blocks, the block
  coverages come out in sequences that differ with the order of the map.
\<close>

lemma block_keys_with_NaN:
  "map BlockCoverage (Files (fst (GenerateReport [0] (no_block_files, None) [] [] ''block'' ''asc'')))
     = [Finite 100, NaN, Finite 50]
   \<and> map BlockCoverage (Files (fst (GenerateReport [2] (no_block_files, None) [] [] ''block'' ''asc'')))
     = [Finite 50, Finite 100, NaN]"
  by code_simp

text \<open>
  Claim C7, as the code has it: whatever order the runtime visits the map in, two
  calls with the same inputs return the same error, the same Total and the same
  summaries of the files, each the same number of times. With a sort key other than
  \<open>stmt\<close> the two sequences of files carry the same key at every position, so that
  they differ at most in the order of files with equal keys (for \<open>block\<close>, when no
  summary has the block coverage NaN); when the files are sorted by \<open>filename\<close> the
  two results are equal, order included.
\<close>

theorem report_up_to_order_of_ties:
  "snd (GenerateReport seed1 parsed rootDir exclusions sortBy order)
     = snd (GenerateReport seed2 parsed rootDir exclusions sortBy order)
   \<and> Total (fst (GenerateReport seed1 parsed rootDir exclusions sortBy order))
     = Total (fst (GenerateReport seed2 parsed rootDir exclusions sortBy order))
   \<and> mset (Files (fst (GenerateReport seed1 parsed rootDir exclusions sortBy order)))
     = mset (Files (fst (GenerateReport seed2 parsed rootDir exclusions sortBy order)))
   \<and> (sortBy = ''filename'' \<longrightarrow>
        GenerateReport seed1 parsed rootDir exclusions sortBy order
          = GenerateReport seed2 parsed rootDir exclusions sortBy order)
   \<and> (sortBy \<noteq> ''stmt'' \<and>
        (sortBy = ''block'' \<longrightarrow>
           (\<forall>s\<in>set (Files (fst (GenerateReport seed1 parsed rootDir exclusions sortBy order))).
              BlockCoverage s \<noteq> NaN)) \<longrightarrow>
        list_all2 (same_key sortBy)
          (Files (fst (GenerateReport seed1 parsed rootDir exclusions sortBy order)))
          (Files (fst (GenerateReport seed2 parsed rootDir exclusions sortBy order))))"
proof -
  obtain profiles e where parsed: "parsed = (profiles, e)" by (cases parsed)
  show ?thesis
  proof (cases e)
    case (Some err)
    have "GenerateReport seed parsed rootDir exclusions sortBy order
        = (Report_zero, Some (''Invalid coverprofile: '' @ [CHR 0x27] @ err @ [CHR 0x27]))" for seed
      by (simp add: parsed Some GenerateReport_def)
    then have "GenerateReport seed1 parsed rootDir exclusions sortBy order
        = GenerateReport seed2 parsed rootDir exclusions sortBy order"
      and "Files (fst (GenerateReport seed1 parsed rootDir exclusions sortBy order)) = []"
      by (simp_all add: Report_zero_def)
    then show ?thesis by (rule same_report_no_files)
  next
    case None
    let ?st = "fold (add_profile rootDir exclusions) profiles (new_accumulator ''Total'', [])"
    have first: "snd (makeReport seed1 (fst ?st) (snd ?st) sortBy order)
          = snd (makeReport seed2 (fst ?st) (snd ?st) sortBy order)
      \<and> Total (fst (makeReport seed1 (fst ?st) (snd ?st) sortBy order))
          = Total (fst (makeReport seed2 (fst ?st) (snd ?st) sortBy order))
      \<and> mset (Files (fst (makeReport seed1 (fst ?st) (snd ?st) sortBy order)))
          = mset (Files (fst (makeReport seed2 (fst ?st) (snd ?st) sortBy order)))
      \<and> (sortBy = ''filename'' \<longrightarrow>
          makeReport seed1 (fst ?st) (snd ?st) sortBy order
            = makeReport seed2 (fst ?st) (snd ?st) sortBy order)"
      by (rule makeReport_seed) (rule files_ok_GenerateReport)
    have keys: "list_all2 (same_key sortBy)
          (Files (fst (makeReport seed1 (fst ?st) (snd ?st) sortBy order)))
          (Files (fst (makeReport seed2 (fst ?st) (snd ?st) sortBy order)))"
      if "sortBy \<noteq> ''stmt'' \<and>
        (sortBy = ''block'' \<longrightarrow>
           (\<forall>s\<in>set (Files (fst (makeReport seed1 (fst ?st) (snd ?st) sortBy order))).
              BlockCoverage s \<noteq> NaN))"
      using that by (intro makeReport_seed_keys) blast+
    from first keys show ?thesis
      unfolding parsed None GenerateReport_parsed by (intro conjI impI) blast+
  qed
qed

text \<open>
  For C7: the two files with equal block coverage, and the three files, with the map
  visited in two orders: the two files of 100 percent change places, behind the file of
  50 percent.
\<close>

theorem report_up_to_order_of_ties_witness:
  "GenerateReport [0] (tied_files, None) [] [] ''filename'' ''desc''
     = GenerateReport [1] (tied_files, None) [] [] ''filename'' ''desc''
   \<and> mset (Files (fst (GenerateReport [0] (tied_files, None) [] [] ''block'' ''asc'')))
     = mset (Files (fst (GenerateReport [1] (tied_files, None) [] [] ''block'' ''asc'')))
   \<and> map Name (Files (fst (GenerateReport [0] (three_files, None) [] [] ''block'' ''asc'')))
     = [''c.go'', ''a.go'', ''b.go'']
   \<and> map Name (Files (fst (GenerateReport [1] (three_files, None) [] [] ''block'' ''asc'')))
     = [''c.go'', ''b.go'', ''a.go'']
   \<and> list_all2 (same_key ''block'')
        (Files (fst (GenerateReport [0] (three_files, None) [] [] ''block'' ''asc'')))
        (Files (fst (GenerateReport [1] (three_files, None) [] [] ''block'' ''asc'')))"
proof -
  have nan: "\<forall>s\<in>set (Files (fst (GenerateReport [0] (three_files, None) [] [] ''block'' ''asc''))).
      BlockCoverage s \<noteq> NaN"
    by code_simp
  have names: "map Name (Files (fst (GenerateReport [0] (three_files, None) [] [] ''block'' ''asc'')))
       = [''c.go'', ''a.go'', ''b.go'']"
    "map Name (Files (fst (GenerateReport [1] (three_files, None) [] [] ''block'' ''asc'')))
       = [''c.go'', ''b.go'', ''a.go'']"
    by code_simp+
  from nan names
    report_up_to_order_of_ties [of "[0]" "(tied_files, None)" "[]" "[]" "''filename''" "''desc''" "[1]"]
    report_up_to_order_of_ties [of "[0]" "(tied_files, None)" "[]" "[]" "''block''" "''asc''" "[1]"]
    report_up_to_order_of_ties [of "[0]" "(three_files, None)" "[]" "[]" "''block''" "''asc''" "[1]"]
  show ?thesis by simp
qed

end
